theory Spec2Isabelle
  imports Main "HOL-Library.List_Lexorder" "HOL-Library.Multiset" "HOL-Library.Signed_Division"
begin

section \<open>Failures\<close>

text \<open>
  The C++ sources fail in these ways: an \<^verbatim>\<open>assert\<close> that does not hold; a signed
  \<^verbatim>\<open>int\<close> operation whose result is not representable, a division by zero, an
  unchecked element access outside a vector (all undefined behaviour); a recursion
  that does not end.  Each is a value of the model; a function that can fail returns
  \<open>error + 'a\<close>.
\<close>

datatype assertion = size_gt_0 | k_gt_0 | partition0_ne_0 | braket_supported

datatype error =
  AssertionFailed assertion | SignedOverflow | DivisionByZero | OutOfBounds | NoReturn

section \<open>Ordered integer partitions (\<^verbatim>\<open>intpart_iter.h\<close>)\<close>

text \<open>
  The element type of the sequence is the \<^verbatim>\<open>unsigned int\<close> of
  \<^verbatim>\<open>CartesianDerivIterator\<close>: a natural number below \<open>2 ^ 32\<close>, with the wrap-around of
  every arithmetic operation written out.
\<close>

definition UINT_MOD :: nat where
  "UINT_MOD = 2 ^ 32"

text \<open>\<^verbatim>\<open>std::accumulate(partition, partition+size, 0u)\<close>: the accumulator is an unsigned int.\<close>

definition accumulate :: "nat list \<Rightarrow> nat" where
  "accumulate p = fold (\<lambda>x acc. (acc + x) mod UINT_MOD) p 0"

definition first_p :: "nat list \<Rightarrow> error + nat list" where
  "first_p p =
     (if 0 < length p then Inr ((replicate (length p) 0)[0 := accumulate p])
      else Inl (AssertionFailed size_gt_0))"

definition last_p :: "nat list \<Rightarrow> error + bool" where
  "last_p p =
     (if 0 < length p then Inr (p ! (length p - 1) = accumulate p)
      else Inl (AssertionFailed size_gt_0))"

text \<open>
  \<open>next_p\<close> works on the suffix \<^verbatim>\<open>partition+1\<close> as the source does.  A failed assertion
  is returned together with the contents of the array at that moment.
\<close>

fun next_p :: "nat list \<Rightarrow> (error \<times> nat list) + nat list" where
  "next_p [] = Inl (AssertionFailed size_gt_0, [])"
| "next_p [x] = Inr [x]"
| "next_p (x # y # rest) =
     (case last_p (y # rest) of
        Inl e \<Rightarrow> Inl (e, x # y # rest)
      | Inr True \<Rightarrow>
          if x = 0 then Inl (AssertionFailed partition0_ne_0, x # y # rest)
          else (case first_p (((y + 1) mod UINT_MOD) # rest) of
                  Inl e \<Rightarrow> Inl (e, (x - 1) # ((y + 1) mod UINT_MOD) # rest)
                | Inr q \<Rightarrow> Inr ((x - 1) # q))
      | Inr False \<Rightarrow>
          (case next_p (y # rest) of
             Inl (e, q) \<Rightarrow> Inl (e, x # q)
           | Inr q \<Rightarrow> Inr (x # q)))"

record iterator =
  n_m :: nat
  partition_m :: "nat list"

text \<open>The constructor taking \<open>n\<close> and \<open>k\<close>.\<close>

definition make_iterator :: "nat \<Rightarrow> nat \<Rightarrow> error + iterator" where
  "make_iterator n k =
     (if 0 < k then Inr \<lparr>n_m = n, partition_m = (replicate k 0)[0 := n mod UINT_MOD]\<rparr>
      else Inl (AssertionFailed k_gt_0))"

definition last_it :: "iterator \<Rightarrow> error + bool" where
  "last_it it = last_p (partition_m it)"

definition next_it :: "iterator \<Rightarrow> (error \<times> iterator) + iterator" where
  "next_it it =
     (case next_p (partition_m it) of
        Inl (e, q) \<Rightarrow> Inl (e, it\<lparr>partition_m := q\<rparr>)
      | Inr q \<Rightarrow> Inr (it\<lparr>partition_m := q\<rparr>))"

text \<open>
  A client's loop \<^verbatim>\<open>while (!it.last()) it.next();\<close>, returning the partitions it sees in
  the order it sees them.  \<open>None\<close>: the loop fails or does not end.
\<close>

partial_function (option) visit :: "nat list \<Rightarrow> nat list list option" where
  "visit p =
     (case last_p p of
        Inl e \<Rightarrow> None
      | Inr b \<Rightarrow>
          if b then Some [p]
          else (case next_p p of
                  Inl e \<Rightarrow> None
                | Inr q \<Rightarrow> Option.bind (visit q) (\<lambda>ps. Some (p # ps))))"

declare visit.simps [code]

text \<open>
  \<^verbatim>\<open>range_size\<close> computes in \<^verbatim>\<open>intmax_t\<close> and \<^verbatim>\<open>size_t\<close>, 64 bits wide.  The factor
  \<^verbatim>\<open>partition_size+d-1\<close> is a \<^verbatim>\<open>size_t\<close>; the product is taken modulo \<open>2 ^ 64\<close> and read
  back as a signed number; the division is the signed one of C++, which truncates.
\<close>

definition to_size_t :: "int \<Rightarrow> int" where
  "to_size_t v = v mod 2 ^ 64"

definition to_intmax_t :: "int \<Rightarrow> int" where
  "to_intmax_t v = (v + 2 ^ 63) mod 2 ^ 64 - 2 ^ 63"

function range_size_loop :: "int \<Rightarrow> int \<Rightarrow> int \<Rightarrow> int \<Rightarrow> int" where
  "range_size_loop n partition_size d result =
     (if d \<le> n
      then range_size_loop n partition_size (d + 1)
             (to_intmax_t (to_size_t result * to_size_t (partition_size + d - 1)) sdiv d)
      else result)"
  by pat_completeness auto
termination
  by (relation "measure (\<lambda>(n, sz, d, r). nat (n + 1 - d))") auto

definition range_size :: "iterator \<Rightarrow> int" where
  "range_size it = range_size_loop (int (n_m it)) (int (length (partition_m it))) 1 1"

text \<open>
  The partitions of \<open>n\<close> into \<open>j + 1\<close> parts in reverse lexicographic order: the list
  against which the iteration is compared.  \<open>down f x s\<close> puts the first part \<open>x\<close>, then
  \<open>x - 1\<close>, down to \<open>0\<close>, in front of the lists \<open>f s\<close>, \<open>f (s + 1)\<close>, up to \<open>f (s + x)\<close>.
\<close>

primrec down :: "(nat \<Rightarrow> nat list list) \<Rightarrow> nat \<Rightarrow> nat \<Rightarrow> nat list list" where
  "down f 0 s = map ((#) 0) (f s)"
| "down f (Suc x) s = map ((#) (Suc x)) (f s) @ down f x (Suc s)"

primrec revlex :: "nat \<Rightarrow> nat \<Rightarrow> nat list list" where
  "revlex 0 = (\<lambda>n. [[n]])"
| "revlex (Suc j) = (\<lambda>n. down (revlex j) n 0)"

section \<open>Derivative index maps (\<^verbatim>\<open>deriv_map.h\<close>)\<close>

subsection \<open>Integers and vectors\<close>

text \<open>
  \<^verbatim>\<open>int\<close> has 32 bits.  A signed operation whose result is not representable is
  undefined behaviour: the model stops with \<open>SignedOverflow\<close>.
\<close>

definition INT_MIN :: int where
  "INT_MIN = - (2 ^ 31)"

definition INT_MAX :: int where
  "INT_MAX = 2 ^ 31 - 1"

definition int_ok :: "int \<Rightarrow> bool" where
  "int_ok v = (INT_MIN \<le> v \<and> v \<le> INT_MAX)"

text \<open>\<^verbatim>\<open>v[i]\<close> on a \<^verbatim>\<open>std::vector\<close>: no bounds check; outside the vector the behaviour is undefined.\<close>

definition at :: "'a list \<Rightarrow> int \<Rightarrow> error + 'a" where
  "at v i = (if 0 \<le> i \<and> i < int (length v) then Inr (v ! nat i) else Inl OutOfBounds)"

text \<open>A counted loop whose body neither changes the counter nor the bound, over the values of the counter.\<close>

primrec for_each :: "'i list \<Rightarrow> ('i \<Rightarrow> 's \<Rightarrow> error + 's) \<Rightarrow> 's \<Rightarrow> error + 's" where
  "for_each [] body s = Inr s"
| "for_each (i # is) body s =
     (case body i s of Inl e \<Rightarrow> Inl e | Inr s' \<Rightarrow> for_each is body s')"

subsection \<open>Combinations with repetition\<close>

text \<open>
  \<^verbatim>\<open>cwr_recursion\<close> calls itself from inside its \<^verbatim>\<open>for\<close> loop.  \<open>cwr\<close> is both: with
  \<open>in_loop = False\<close> it is a call of \<^verbatim>\<open>cwr_recursion(inp, out, result, k, j, n)\<close>; with
  \<open>in_loop = True\<close> it is the rest of the loop of such a call, from the counter \<open>j\<close> on.
  It returns the final \<^verbatim>\<open>result\<close>; \<^verbatim>\<open>out\<close> is the same after a call as before (every
  \<^verbatim>\<open>push_back\<close> is undone by a \<^verbatim>\<open>pop_back\<close>).  \<open>None\<close>: the call does not return (the
  recursion does not end, or it reads outside \<^verbatim>\<open>inp\<close>).  The comparison
  \<^verbatim>\<open>out.size() == k\<close> is one of unsigned 64-bit numbers; for a negative \<open>k\<close> no vector is
  that long.
\<close>

partial_function (option) cwr ::
  "int list \<Rightarrow> int list \<Rightarrow> int list list \<Rightarrow> int \<Rightarrow> nat \<Rightarrow> nat \<Rightarrow> bool \<Rightarrow> int list list option"
where
  "cwr inp out result k j n in_loop =
     (if \<not> in_loop \<and> int (length out) = k then Some (result @ [out])
      else if j < n then
        (if j < length inp then
           Option.bind (cwr inp (out @ [inp ! j]) result k j n False)
             (\<lambda>result'. cwr inp out result' k (Suc j) n True)
         else None)
      else Some result)"

declare cwr.simps [code]

definition cwr_recursion ::
  "int list \<Rightarrow> int list \<Rightarrow> int list list \<Rightarrow> int \<Rightarrow> nat \<Rightarrow> nat \<Rightarrow> int list list option"
where
  "cwr_recursion inp out result k i n = cwr inp out result k i n False"

definition generate_multi_index_lookup :: "int \<Rightarrow> int \<Rightarrow> int list list option" where
  "generate_multi_index_lookup nparams deriv_order =
     (let inp = map int [0..<nat nparams]
      in cwr_recursion inp [] [] deriv_order 0 (nat nparams))"

subsection \<open>The number of derivatives\<close>

function how_many_derivs_loop :: "int \<Rightarrow> int \<Rightarrow> int \<Rightarrow> int \<Rightarrow> int \<Rightarrow> error + int \<times> int" where
  "how_many_derivs_loop k n i val factorial =
     (if i < n then
        (let val' = val * (3 * k + i); factorial' = factorial * (i + 1)
         in if int_ok (3 * k) \<and> int_ok (3 * k + i) \<and> int_ok val' \<and> int_ok factorial'
            then how_many_derivs_loop k n (i + 1) val' factorial'
            else Inl SignedOverflow)
      else Inr (val, factorial))"
  by pat_completeness auto
termination
  by (relation "measure (\<lambda>(k, n, i, val, factorial). nat (n - i))") auto

definition how_many_derivs :: "int \<Rightarrow> int \<Rightarrow> error + int" where
  "how_many_derivs k n =
     (case how_many_derivs_loop k n 0 1 1 of
        Inl e \<Rightarrow> Inl e
      | Inr (val, factorial) \<Rightarrow>
          if factorial = 0 then Inl DivisionByZero else Inr (val sdiv factorial))"

subsection \<open>Bracket shapes and their permutations\<close>

text \<open>
  Modelled from the spec: the enumeration \<^verbatim>\<open>BraKet\<close> is declared in \<^verbatim>\<open>libint2/braket.h\<close>,
  which is not among the sources.  Of its values, \<^verbatim>\<open>deriv_map.h\<close> names \<open>xx_xx\<close> (four
  centers) and \<open>xs_xx\<close> (three centers); \<open>other_braket\<close> is any other one.
\<close>

datatype BraKet = xx_xx | xs_xx | other_braket

record shape =
  swap_braket_perm :: "int list"
  swap_bra_perm :: "int list"
  swap_ket_perm :: "int list"
  swap_combos :: "int list list"
  ncenters :: int

text \<open>The \<^verbatim>\<open>switch\<close> at the head of \<^verbatim>\<open>generate_deriv_index_map\<close>.\<close>

fun shape_of :: "BraKet \<Rightarrow> error + shape" where
  "shape_of xx_xx = Inr
     \<lparr>swap_braket_perm = [6, 7, 8, 9, 10, 11, 0, 1, 2, 3, 4, 5],
      swap_bra_perm = [3, 4, 5, 0, 1, 2, 6, 7, 8, 9, 10, 11],
      swap_ket_perm = [0, 1, 2, 3, 4, 5, 9, 10, 11, 6, 7, 8],
      swap_combos = [[0, 0, 0], [0, 0, 1], [0, 1, 0], [0, 1, 1],
                     [1, 0, 0], [1, 0, 1], [1, 1, 0], [1, 1, 1]],
      ncenters = 4\<rparr>"
| "shape_of xs_xx = Inr
     \<lparr>swap_braket_perm = [0, 1, 2, 3, 4, 5, 6, 7, 8],
      swap_bra_perm = [0, 1, 2, 3, 4, 5, 6, 7, 8],
      swap_ket_perm = [0, 1, 2, 6, 7, 8, 3, 4, 5],
      swap_combos = [[0, 0, 0], [0, 0, 1]],
      ncenters = 3\<rparr>"
| "shape_of other_braket = Inl (AssertionFailed braket_supported)"

subsection \<open>The table\<close>

text \<open>
  Modelled from the spec: the class \<^verbatim>\<open>Tensor\<close> is declared in \<^verbatim>\<open>libint2/tensor.h\<close>, which
  is not among the sources.  The spec describes the derivative index map as a
  4-dimensional integer table addressed as \<open>[swap_braket][swap_bra][swap_ket][index]\<close>: a
  tensor is a function from the four indices to the entry.  What a newly constructed
  \<^verbatim>\<open>Tensor<int>{2,2,2,nderivs}\<close> holds is decided by that header; the constructor is the
  parameter \<open>new_Tensor\<close> of the functions below.
\<close>

type_synonym tensor = "int \<times> int \<times> int \<times> int \<Rightarrow> int"

subsection \<open>Building one table\<close>

text \<open>
  \<^verbatim>\<open>std::lower_bound\<close>, as the standard library implements it: a binary search for the
  first position whose element is not less than the value.  Vectors of integers are
  compared lexicographically.
\<close>

function lower_bound_loop :: "'a::linorder list \<Rightarrow> nat \<Rightarrow> nat \<Rightarrow> 'a \<Rightarrow> nat" where
  "lower_bound_loop xs first len v =
     (if 0 < len then
        (let half = len div 2; middle = first + half
         in if xs ! middle < v then lower_bound_loop xs (middle + 1) (len - half - 1) v
            else lower_bound_loop xs first half v)
      else first)"
  by pat_completeness auto
termination
  by (relation "measure (\<lambda>(xs, first, len, v). len)") auto

definition lower_bound :: "'a::linorder list \<Rightarrow> 'a \<Rightarrow> nat" where
  "lower_bound xs v = lower_bound_loop xs 0 (length xs) v"

text \<open>The three conditional permutations of one index (the body of the loop over \<open>j\<close>).\<close>

definition permute_index :: "shape \<Rightarrow> int \<Rightarrow> int \<Rightarrow> int \<Rightarrow> int \<Rightarrow> error + int" where
  "permute_index sh swap_braket swap_bra swap_ket idx =
     (case (if swap_braket = 1 then at (swap_braket_perm sh) idx else Inr idx) of
        Inl e \<Rightarrow> Inl e
      | Inr idx1 \<Rightarrow>
     (case (if swap_bra = 1 then at (swap_bra_perm sh) idx1 else Inr idx1) of
        Inl e \<Rightarrow> Inl e
      | Inr idx2 \<Rightarrow>
          (if swap_ket = 1 then at (swap_ket_perm sh) idx2 else Inr idx2)))"

definition permuted_indices ::
  "shape \<Rightarrow> int \<Rightarrow> int \<Rightarrow> int \<Rightarrow> int list \<Rightarrow> error + int list" where
  "permuted_indices sh swap_braket swap_bra swap_ket multi_idx =
     for_each multi_idx
       (\<lambda>idx acc. case permute_index sh swap_braket swap_bra swap_ket idx of
                    Inl e \<Rightarrow> Inl e
                  | Inr idx' \<Rightarrow> Inr (acc @ [idx']))
       []"

text \<open>
  Lines 239 to 241: \<^verbatim>\<open>new_idx\<close> starts as 0 and is replaced by the position found unless
  that position is the end of \<^verbatim>\<open>lookup\<close>.
\<close>

definition new_idx :: "int list list \<Rightarrow> int list \<Rightarrow> int" where
  "new_idx lookup permuted =
     (let it = lower_bound lookup permuted
      in if it \<noteq> length lookup then int it else 0)"

text \<open>The body of the loop over \<open>i\<close>, up to the value written at \<open>(swap_braket, swap_bra, swap_ket, i)\<close>.\<close>

definition entry ::
  "shape \<Rightarrow> int list list \<Rightarrow> int \<Rightarrow> int \<Rightarrow> int \<Rightarrow> int \<Rightarrow> error + int" where
  "entry sh lookup swap_braket swap_bra swap_ket i =
     (case at lookup i of
        Inl e \<Rightarrow> Inl e
      | Inr multi_idx \<Rightarrow>
          (case permuted_indices sh swap_braket swap_bra swap_ket multi_idx of
             Inl e \<Rightarrow> Inl e
           | Inr permuted \<Rightarrow> Inr (new_idx lookup (sort permuted))))"

definition fill_combo ::
  "shape \<Rightarrow> int list list \<Rightarrow> int \<Rightarrow> int list \<Rightarrow> tensor \<Rightarrow> error + tensor" where
  "fill_combo sh lookup nderivs combo mapDerivIndex =
     (case (at combo 0, at combo 1, at combo 2) of
        (Inr swap_braket, Inr swap_bra, Inr swap_ket) \<Rightarrow>
          for_each [0..nderivs - 1]
            (\<lambda>i m. case entry sh lookup swap_braket swap_bra swap_ket i of
                      Inl e \<Rightarrow> Inl e
                    | Inr v \<Rightarrow> Inr (m((swap_braket, swap_bra, swap_ket, i) := v)))
            mapDerivIndex
      | _ \<Rightarrow> Inl OutOfBounds)"

definition generate_deriv_index_map ::
  "(int list \<Rightarrow> tensor) \<Rightarrow> int \<Rightarrow> BraKet \<Rightarrow> error + tensor" where
  "generate_deriv_index_map new_Tensor deriv_order braket =
     (case shape_of braket of
        Inl e \<Rightarrow> Inl e
      | Inr sh \<Rightarrow>
     (case how_many_derivs (ncenters sh) deriv_order of
        Inl e \<Rightarrow> Inl e
      | Inr nderivs \<Rightarrow>
     (case generate_multi_index_lookup (ncenters sh * 3) deriv_order of
        None \<Rightarrow> Inl NoReturn
      | Some lookup \<Rightarrow>
          for_each (swap_combos sh) (fill_combo sh lookup nderivs)
            (new_Tensor [2, 2, 2, nderivs]))))"

subsection \<open>The cache\<close>

text \<open>The two static vectors of tables, and \<^verbatim>\<open>LIBINT2_MAX_DERIV_ORDER\<close> as a parameter.\<close>

record cache =
  braket_xx_xx_maps :: "tensor list"
  braket_xs_xx_maps :: "tensor list"

definition initialize :: "(int list \<Rightarrow> tensor) \<Rightarrow> int \<Rightarrow> cache \<Rightarrow> error + cache" where
  "initialize new_Tensor LIBINT2_MAX_DERIV_ORDER c0 =
     for_each [0..LIBINT2_MAX_DERIV_ORDER - 1]
       (\<lambda>i c. case generate_deriv_index_map new_Tensor (i + 1) xx_xx of
                 Inl e \<Rightarrow> Inl e
               | Inr t1 \<Rightarrow>
                   (case generate_deriv_index_map new_Tensor (i + 1) xs_xx of
                      Inl e \<Rightarrow> Inl e
                    | Inr t2 \<Rightarrow>
                        Inr \<lparr>braket_xx_xx_maps = braket_xx_xx_maps c @ [t1],
                             braket_xs_xx_maps = braket_xs_xx_maps c @ [t2]\<rparr>))
       c0"

text \<open>\<^verbatim>\<open>instance\<close>: an unchecked index into the vector of the shape.\<close>

definition instance_of :: "cache \<Rightarrow> int \<Rightarrow> BraKet \<Rightarrow> error + tensor" where
  "instance_of c deriv_order braket =
     (case braket of
        xx_xx \<Rightarrow> at (braket_xx_xx_maps c) (deriv_order - 1)
      | xs_xx \<Rightarrow> at (braket_xs_xx_maps c) (deriv_order - 1)
      | other_braket \<Rightarrow> Inl (AssertionFailed braket_supported))"

subsection \<open>The non-decreasing tuples in lexicographic order\<close>

text \<open>
  \<open>nondecreasing r i n\<close>: the non-decreasing lists of length \<open>r\<close> over \<open>[i, n)\<close>, in
  ascending lexicographic order; the list against which \<^verbatim>\<open>cwr_recursion\<close> is compared.
\<close>

primrec nondecreasing :: "nat \<Rightarrow> nat \<Rightarrow> nat \<Rightarrow> nat list list" where
  "nondecreasing 0 = (\<lambda>i n. [[]])"
| "nondecreasing (Suc r) = (\<lambda>i n. concat (map (\<lambda>j. map ((#) j) (nondecreasing r j n)) [i..<n]))"

subsection \<open>What the table holds\<close>

text \<open>
  The constants below describe the table; the proofs relate them to the functions above.
  \<open>permuted\<close> is the effect of the three conditional permutations on one index when no
  access is out of range, \<open>canonical\<close> the re-sorted permuted tuple, \<open>tuples N r\<close> the
  non-decreasing tuples of length \<open>r\<close> over \<open>[0, N)\<close>.  \<open>slice_keys\<close> are the keys written
  for one symmetry combination and \<open>slice_val\<close> the entry the table holds there.
  \<open>max_order\<close> is the largest derivative order at which \<^verbatim>\<open>how_many_derivs\<close> stays within
  \<^verbatim>\<open>int\<close>.  \<open>zero_Tensor\<close> is a constructor that sets every entry to zero.
\<close>

definition apply_perm :: "int list \<Rightarrow> int \<Rightarrow> int \<Rightarrow> int" where
  "apply_perm p flag idx = (if flag = 1 then p ! nat idx else idx)"

definition permuted :: "shape \<Rightarrow> int \<Rightarrow> int \<Rightarrow> int \<Rightarrow> int \<Rightarrow> int" where
  "permuted sh swap_braket swap_bra swap_ket idx =
     apply_perm (swap_ket_perm sh) swap_ket
       (apply_perm (swap_bra_perm sh) swap_bra
         (apply_perm (swap_braket_perm sh) swap_braket idx))"

definition canonical :: "shape \<Rightarrow> int \<Rightarrow> int \<Rightarrow> int \<Rightarrow> int list \<Rightarrow> int list" where
  "canonical sh swap_braket swap_bra swap_ket t =
     sort (map (permuted sh swap_braket swap_bra swap_ket) t)"

definition perm_on :: "nat \<Rightarrow> int list \<Rightarrow> bool" where
  "perm_on N p = (length p = N \<and> distinct p \<and> set p \<subseteq> {0..<int N})"

definition tuples :: "nat \<Rightarrow> nat \<Rightarrow> int list set" where
  "tuples N r = {t. length t = r \<and> sorted t \<and> set t \<subseteq> {0..<int N}}"

definition valid_shape :: "nat \<Rightarrow> shape \<Rightarrow> bool" where
  "valid_shape N sh = (perm_on N (swap_braket_perm sh) \<and> perm_on N (swap_bra_perm sh)
     \<and> perm_on N (swap_ket_perm sh))"

definition slice_keys :: "int \<Rightarrow> int list \<Rightarrow> (int \<times> int \<times> int \<times> int) set" where
  "slice_keys nderivs combo = {(combo ! 0, combo ! 1, combo ! 2, i) | i. 0 \<le> i \<and> i < nderivs}"

definition slice_val :: "shape \<Rightarrow> int list list \<Rightarrow> int \<times> int \<times> int \<times> int \<Rightarrow> int" where
  "slice_val sh L k = (case k of (a, b, c, i) \<Rightarrow> int (lower_bound L (canonical sh a b c (L ! nat i))))"

fun nparams_of :: "BraKet \<Rightarrow> nat" where
  "nparams_of xx_xx = 12"
| "nparams_of xs_xx = 9"
| "nparams_of other_braket = 0"

fun max_order :: "BraKet \<Rightarrow> int" where
  "max_order xx_xx = 7"
| "max_order xs_xx = 8"
| "max_order other_braket = 0"

definition nderivs_of :: "BraKet \<Rightarrow> int \<Rightarrow> int" where
  "nderivs_of braket d = int ((nparams_of braket + nat d - 1) choose nat d)"

definition zero_Tensor :: "int list \<Rightarrow> tensor" where
  "zero_Tensor dims = (\<lambda>k. 0)"

text \<open>
  The two static vectors before \<^verbatim>\<open>initialize()\<close> has run, and a program that calls
  \<^verbatim>\<open>initialize()\<close> once and then \<^verbatim>\<open>instance(deriv_order, braket)\<close>.
\<close>

definition empty_cache :: cache where
  "empty_cache = \<lparr>braket_xx_xx_maps = [], braket_xs_xx_maps = []\<rparr>"

definition instance_after_initialize ::
  "(int list \<Rightarrow> tensor) \<Rightarrow> int \<Rightarrow> int \<Rightarrow> BraKet \<Rightarrow> error + tensor" where
  "instance_after_initialize new_Tensor LIBINT2_MAX_DERIV_ORDER deriv_order braket =
     (case initialize new_Tensor LIBINT2_MAX_DERIV_ORDER empty_cache of
        Inl e \<Rightarrow> Inl e
      | Inr c \<Rightarrow> instance_of c deriv_order braket)"

section \<open>The partitions of 2 into 3 parts\<close>

lemma accumulate_sum: "accumulate p = sum_list p mod UINT_MOD"
proof -
  have "fold (\<lambda>x acc. (acc + x) mod UINT_MOD) p a = (a + sum_list p) mod UINT_MOD"
    if "a < UINT_MOD" for a
    using that
  proof (induction p arbitrary: a)
    case Nil
    then show ?case by simp
  next
    case (Cons x p)
    have "(a + x) mod UINT_MOD < UINT_MOD" by (simp add: UINT_MOD_def)
    from Cons.IH [OF this] show ?case
      by (simp add: mod_add_left_eq add.assoc)
  qed
  from this [of 0] show ?thesis by (simp add: accumulate_def UINT_MOD_def)
qed

lemma visit_last: "last_p p = Inr True \<Longrightarrow> visit p = Some [p]"
  by (subst visit.simps) simp

lemma visit_step:
  "last_p p = Inr False \<Longrightarrow> next_p p = Inr q \<Longrightarrow> visit q = Some ps
   \<Longrightarrow> visit p = Some (p # ps)"
  by (subst visit.simps) simp

text \<open>
  C7: the iterator made from \<open>n = 2\<close> and \<open>k = 3\<close> starts at \<open>{2,0,0}\<close>; \<open>next\<close> leads through
  \<open>{1,1,0}\<close>, \<open>{1,0,1}\<close>, \<open>{0,2,0}\<close>, \<open>{0,1,1}\<close> to \<open>{0,0,2}\<close>, and \<open>last\<close> is true at
  \<open>{0,0,2}\<close> and at none of the five before it.
\<close>

theorem partitions_2_3:
  "make_iterator 2 3 = Inr \<lparr>n_m = 2, partition_m = [2, 0, 0]\<rparr>
   \<and> next_p [2, 0, 0] = Inr [1, 1, 0] \<and> last_p [2, 0, 0] = Inr False
   \<and> next_p [1, 1, 0] = Inr [1, 0, 1] \<and> last_p [1, 1, 0] = Inr False
   \<and> next_p [1, 0, 1] = Inr [0, 2, 0] \<and> last_p [1, 0, 1] = Inr False
   \<and> next_p [0, 2, 0] = Inr [0, 1, 1] \<and> last_p [0, 2, 0] = Inr False
   \<and> next_p [0, 1, 1] = Inr [0, 0, 2] \<and> last_p [0, 1, 1] = Inr False
   \<and> last_p [0, 0, 2] = Inr True
   \<and> visit [2, 0, 0] =
       Some [[2, 0, 0], [1, 1, 0], [1, 0, 1], [0, 2, 0], [0, 1, 1], [0, 0, 2]]"
proof -
  note defs = make_iterator_def last_p_def first_p_def accumulate_sum UINT_MOD_def
  have n1: "next_p [2, 0, 0] = Inr [1, 1, 0]" and l1: "last_p [2, 0, 0] = Inr False"
    and n2: "next_p [1, 1, 0] = Inr [1, 0, 1]" and l2: "last_p [1, 1, 0] = Inr False"
    and n3: "next_p [1, 0, 1] = Inr [0, 2, 0]" and l3: "last_p [1, 0, 1] = Inr False"
    and n4: "next_p [0, 2, 0] = Inr [0, 1, 1]" and l4: "last_p [0, 2, 0] = Inr False"
    and n5: "next_p [0, 1, 1] = Inr [0, 0, 2]" and l5: "last_p [0, 1, 1] = Inr False"
    and l6: "last_p [0, 0, 2] = Inr True"
    by (simp_all add: defs)
  note v6 = visit_last [OF l6]
  note v5 = visit_step [OF l5 n5 v6]
  note v4 = visit_step [OF l4 n4 v5]
  note v3 = visit_step [OF l3 n3 v4]
  note v2 = visit_step [OF l2 n2 v3]
  note v1 = visit_step [OF l1 n1 v2]
  have m: "make_iterator 2 3 = Inr \<lparr>n_m = 2, partition_m = [2, 0, 0]\<rparr>"
    by (simp add: defs numeral_3_eq_3)
  show ?thesis
    using m n1 l1 n2 l2 n3 l3 n4 l4 n5 l5 l6 v1 by blast
qed

section \<open>When \<open>next\<close> fails\<close>

text \<open>
  A partition state of the iterator is a partition of some \<open>n\<close> of the element type, so
  its parts sum to less than \<open>2 ^ 32\<close> and no sum or increment wraps around.
\<close>

lemma accumulate_small: "sum_list p < UINT_MOD \<Longrightarrow> accumulate p = sum_list p"
  by (simp add: accumulate_sum)

lemma last_p_Inr:
  "p \<noteq> [] \<Longrightarrow> sum_list p < UINT_MOD \<Longrightarrow> last_p p = Inr (last p = sum_list p)"
  by (simp add: last_p_def accumulate_small last_conv_nth)

lemma last_le_sum: "p \<noteq> [] \<Longrightarrow> last p \<le> sum_list (p :: nat list)"
  by (induction p) auto

lemma last_p_Cons:
  assumes "q \<noteq> []" "x + sum_list q < UINT_MOD"
  shows "last_p (x # q) = Inr (x = 0 \<and> last q = sum_list q)"
proof -
  have "last q \<le> sum_list q" using assms(1) by (rule last_le_sum)
  then have "(last q = x + sum_list q) = (x = 0 \<and> last q = sum_list q)" by auto
  then show ?thesis using assms by (simp add: last_p_Inr)
qed

lemma first_p_Cons:
  "sum_list (y # rest) < UINT_MOD \<Longrightarrow>
   first_p (y # rest) = Inr (sum_list (y # rest) # replicate (length rest) 0)"
  by (simp add: first_p_def accumulate_small del: sum_list.Cons)

lemma next_p_suffix_last:
  assumes "last_p (y # rest) = Inr True" "0 < x" "x + sum_list (y # rest) < UINT_MOD"
  shows "next_p (x # y # rest) = Inr ((x - 1) # (sum_list (y # rest) + 1) # replicate (length rest) 0)"
proof -
  have m: "Suc y mod UINT_MOD = Suc y" using assms by simp
  have "sum_list (Suc y # rest) < UINT_MOD" using assms by simp
  from first_p_Cons [OF this] show ?thesis using assms(1,2) by (simp add: m)
qed

lemma next_p_suffix_not_last:
  "last_p (y # rest) = Inr False \<Longrightarrow>
   next_p (x # y # rest) = (case next_p (y # rest) of Inl (e, q) \<Rightarrow> Inl (e, x # q) | Inr q \<Rightarrow> Inr (x # q))"
  by simp

lemma next_p_returns:
  "p \<noteq> [] \<Longrightarrow> sum_list p < UINT_MOD \<Longrightarrow> last_p p = Inr False \<Longrightarrow>
   \<exists>q. next_p p = Inr q \<and> length q = length p \<and> sum_list q = sum_list p"
proof (induction p rule: next_p.induct)
  case 1
  then show ?case by simp
next
  case (2 x)
  then show ?case by simp
next
  case (3 x y rest)
  let ?q = "y # rest"
  have small: "sum_list ?q < UINT_MOD" and small': "x + sum_list ?q < UINT_MOD" using "3.prems" by simp_all
  have lq: "last_p ?q = Inr (last ?q = sum_list ?q)" using small by (simp add: last_p_Inr del: sum_list.Cons last.simps)
  have lp: "last_p (x # ?q) = Inr (x = 0 \<and> last ?q = sum_list ?q)"
    using small' by (intro last_p_Cons) simp_all
  show ?case
  proof (cases "last ?q = sum_list ?q")
    case True
    with lp "3.prems"(3) have "0 < x" by (simp del: sum_list.Cons last.simps)
    moreover have "last_p ?q = Inr True" using lq True by (simp del: sum_list.Cons last.simps)
    ultimately show ?thesis using next_p_suffix_last [of y rest x] small' by simp
  next
    case False
    then have f: "last_p ?q = Inr False" using lq by (simp del: sum_list.Cons last.simps)
    from "3.IH" [OF f _ _ small f] obtain q where
      "next_p ?q = Inr q" "length q = length ?q" "sum_list q = sum_list ?q" by auto
    then show ?thesis using f by simp
  qed
qed

lemma next_p_at_last:
  assumes "2 \<le> length p" "sum_list p < UINT_MOD" "last_p p = Inr True"
  shows "next_p p = Inl (AssertionFailed partition0_ne_0, p)"
proof -
  from assms(1) obtain x y rest where p: "p = x # y # rest"
    by (cases p; cases "tl p") auto
  have "last_p (x # y # rest) = Inr (x = 0 \<and> last (y # rest) = sum_list (y # rest))"
    using assms(2) unfolding p by (intro last_p_Cons) simp_all
  with assms(3) have x: "x = 0" and l: "last (y # rest) = sum_list (y # rest)"
    unfolding p by (simp_all del: sum_list.Cons last.simps)
  have "sum_list (y # rest) < UINT_MOD" using assms(2) unfolding p by simp
  then have "last_p (y # rest) = Inr True"
    using l by (simp add: last_p_Inr del: sum_list.Cons last.simps)
  then show ?thesis unfolding p using x by simp
qed

text \<open>
  C10: on a partition state with at least two parts, \<open>next\<close> fails if and only if
  \<open>last\<close> is true; the failure is then the assertion \<^verbatim>\<open>partition[0] != 0\<close>, raised with
  the array as it was passed in.  When \<open>last\<close> is not true, \<open>next\<close> returns (a state of
  the same length and sum).  On a single part \<open>next\<close> returns the state unchanged, although
  that state is the last one.
\<close>

theorem next_fails_iff_last:
  assumes "2 \<le> length p" and "sum_list p < UINT_MOD"
  shows "((\<exists>e m. next_p p = Inl (e, m)) \<longleftrightarrow> last_p p = Inr True)
    \<and> (last_p p = Inr True \<longrightarrow> next_p p = Inl (AssertionFailed partition0_ne_0, p))
    \<and> (last_p p \<noteq> Inr True \<longrightarrow>
         last_p p = Inr False \<and> (\<exists>q. next_p p = Inr q \<and> length q = length p \<and> sum_list q = sum_list p))
    \<and> next_p [x] = Inr [x] \<and> last_p [x mod UINT_MOD] = Inr True"
proof -
  have ne: "p \<noteq> []" using assms(1) by auto
  have dich: "last_p p = Inr True \<or> last_p p = Inr False"
    using ne assms(2) by (simp add: last_p_Inr)
  have a: "last_p p = Inr True \<Longrightarrow> next_p p = Inl (AssertionFailed partition0_ne_0, p)"
    using assms by (rule next_p_at_last)
  have b: "last_p p = Inr False \<Longrightarrow> \<exists>q. next_p p = Inr q \<and> length q = length p \<and> sum_list q = sum_list p"
    using ne assms(2) by (rule next_p_returns)
  have c: "last_p [x mod UINT_MOD] = Inr True"
    by (simp add: last_p_def accumulate_sum)
  show ?thesis using dich a b c by auto
qed


theorem next_fails_iff_last_witness:
  "last_p [0, 0, 2] = Inr True
   \<and> next_p [0, 0, 2] = Inl (AssertionFailed partition0_ne_0, [0, 0, 2])
   \<and> last_p [1, 0, 1] = Inr False
   \<and> (\<exists>q. next_p [1, 0, 1] = Inr q \<and> length q = 3 \<and> sum_list q = 2)
   \<and> next_p [2] = Inr [2] \<and> last_p [2] = Inr True"
proof -
  have a: "last_p [0, 0, 2] = Inr True" and b: "last_p [1, 0, 1] = Inr False"
    and c: "(2 :: nat) mod UINT_MOD = 2"
    by (simp_all add: last_p_def accumulate_sum UINT_MOD_def)
  have la: "2 \<le> length [0, 0, 2 :: nat]" and sa: "sum_list [0, 0, 2 :: nat] < UINT_MOD"
    and lb: "2 \<le> length [1, 0, 1 :: nat]" and sb: "sum_list [1, 0, 1 :: nat] < UINT_MOD"
    by (simp_all add: UINT_MOD_def)
  note ta = next_fails_iff_last [OF la sa, of 2]
  note tb = next_fails_iff_last [OF lb sb, of 2]
  have 1: "next_p [0, 0, 2] = Inl (AssertionFailed partition0_ne_0, [0, 0, 2])"
    using ta a by blast
  have "last_p [1, 0, 1] \<noteq> Inr True" by (simp only: b) simp
  with tb have "\<exists>q. next_p [1, 0, 1] = Inr q \<and> length q = length [1, 0, 1 :: nat]
      \<and> sum_list q = sum_list [1, 0, 1 :: nat]"
    by blast
  then have 2: "\<exists>q. next_p [1, 0, 1] = Inr q \<and> length q = 3 \<and> sum_list q = 2"
    by (simp add: numeral_3_eq_3 numeral_2_eq_2 del: next_p.simps)
  have 3: "next_p [2] = Inr [2]" using ta by blast
  have "last_p [2 mod UINT_MOD] = Inr True" using ta by blast
  then have 4: "last_p [2] = Inr True" by (simp only: c)
  show ?thesis using a b 1 2 3 4 by blast
qed

section \<open>\<^verbatim>\<open>range_size\<close> and the number of partitions visited\<close>

declare range_size_loop.simps [simp del]

lemma to_size_t_id: "0 \<le> v \<Longrightarrow> v < 2 ^ 64 \<Longrightarrow> to_size_t v = v"
  by (simp add: to_size_t_def)

lemma to_intmax_t_id: "0 \<le> v \<Longrightarrow> v < 2 ^ 63 \<Longrightarrow> to_intmax_t v = v"
  by (simp add: to_intmax_t_def)

lemma sdiv_nonneg: "0 \<le> a \<Longrightarrow> 0 < b \<Longrightarrow> a sdiv b = a div (b :: int)"
  by (simp add: signed_divide_int_def sgn_if)

lemma multichoose_mono: "d \<le> n \<Longrightarrow> (m + d) choose d \<le> (m + n) choose n"
proof (induction n)
  case 0
  then show ?case by simp
next
  case (Suc n)
  show ?case
  proof (cases "d = Suc n")
    case True
    then show ?thesis by simp
  next
    case False
    with Suc have "(m + d) choose d \<le> (m + n) choose n" by simp
    also have "\<dots> \<le> (m + Suc n) choose Suc n" by simp
    finally show ?thesis .
  qed
qed

lemma range_size_step:
  assumes "1 \<le> sz" and "Suc e * ((sz + e) choose Suc e) < 2 ^ 63"
  shows "to_intmax_t (to_size_t (int ((sz + e - 1) choose e)) * to_size_t (int sz + (int e + 1) - 1))
           sdiv (int e + 1) = int ((sz + e) choose Suc e)"
proof -
  let ?r = "(sz + e - 1) choose e"
  have absorb: "(sz + e) * ?r = ((sz + e) choose Suc e) * Suc e"
    using Suc_times_binomial_eq [of "sz + e - 1" e] assms(1) by simp
  have rpos: "1 \<le> ?r" using assms(1) by (simp add: Suc_le_eq)
  have P: "?r * (sz + e) < 2 ^ 63"
    using assms(2) absorb by (simp add: mult.commute)
  have spos: "0 < sz + e" using assms(1) by simp
  have "?r * 1 \<le> ?r * (sz + e)" by (rule mult_le_mono2) (use spos in linarith)
  then have "?r \<le> ?r * (sz + e)" by (simp only: mult_1_right)
  then have r: "?r < 2 ^ 63" using P by (rule le_less_trans)
  have "1 * (sz + e) \<le> ?r * (sz + e)" by (rule mult_le_mono1) (use rpos in linarith)
  then have "sz + e \<le> ?r * (sz + e)" by (simp only: mult_1)
  then have s: "sz + e < 2 ^ 63" using P by (rule le_less_trans)
  have r': "int ?r < 2 ^ 64"
  proof -
    have "int ?r < 2 ^ 63" using r by (metis of_nat_less_numeral_power_cancel_iff)
    then show ?thesis by simp
  qed
  have s': "int sz + int e < 2 ^ 64"
  proof -
    have "int (sz + e) < 2 ^ 63" using s by (metis of_nat_less_numeral_power_cancel_iff)
    then show ?thesis by simp
  qed
  have P': "int ?r * (int sz + int e) < 2 ^ 63"
  proof -
    have "int (?r * (sz + e)) < 2 ^ 63" using P by (metis of_nat_less_numeral_power_cancel_iff)
    then show ?thesis by simp
  qed
  have eq: "int ?r * (int sz + int e) = int ((sz + e) choose Suc e) * (int e + 1)"
  proof -
    have "int (?r * (sz + e)) = int (((sz + e) choose Suc e) * Suc e)"
      using absorb by (simp add: mult.commute)
    then show ?thesis by (simp add: algebra_simps)
  qed
  have "to_size_t (int ?r) = int ?r" using r' by (intro to_size_t_id) simp_all
  moreover have "to_size_t (int sz + (int e + 1) - 1) = int sz + int e"
    using s' by (simp add: to_size_t_id)
  moreover have "to_intmax_t (int ?r * (int sz + int e)) = int ?r * (int sz + int e)"
    using P' by (intro to_intmax_t_id) simp_all
  moreover have "(int ?r * (int sz + int e)) sdiv (int e + 1) = int ((sz + e) choose Suc e)"
    unfolding eq by (subst sdiv_nonneg) simp_all
  ultimately show ?thesis by simp
qed

lemma range_size_loop_binomial:
  assumes "1 \<le> sz" and "n * ((sz + n - 1) choose n) < 2 ^ 63" and "e \<le> n"
  shows "range_size_loop (int n) (int sz) (int e + 1) (int ((sz + e - 1) choose e))
           = int ((sz + n - 1) choose n)"
  using assms(3)
proof (induction "n - e" arbitrary: e)
  case 0
  then have "e = n" by simp
  then show ?case by (subst range_size_loop.simps) simp
next
  case (Suc m)
  then have lt: "Suc e \<le> n" by simp
  have "(sz - 1 + Suc e) choose Suc e \<le> (sz - 1 + n) choose n"
    using lt by (rule multichoose_mono)
  then have "(sz + e) choose Suc e \<le> (sz + n - 1) choose n"
    using assms(1) by simp
  then have "Suc e * ((sz + e) choose Suc e) \<le> n * ((sz + n - 1) choose n)"
    using lt by (intro mult_le_mono)
  then have b: "Suc e * ((sz + e) choose Suc e) < 2 ^ 63"
    using assms(2) by simp
  have ih: "range_size_loop (int n) (int sz) (int (Suc e) + 1) (int ((sz + Suc e - 1) choose Suc e))
      = int ((sz + n - 1) choose n)"
    using Suc.hyps(1) [of "Suc e"] Suc.hyps(2) lt by simp
  have c: "int e + 1 \<le> int n" using lt by simp
  show ?case
    apply (subst range_size_loop.simps)
    apply (simp only: c if_True range_size_step [OF assms(1) b])
    using ih by (simp add: add.commute)
qed

lemma range_size_binomial:
  assumes "1 \<le> length p" and "n * ((length p + n - 1) choose n) < 2 ^ 63"
  shows "range_size \<lparr>n_m = n, partition_m = p\<rparr> = int ((length p + n - 1) choose n)"
  using range_size_loop_binomial [OF assms, of 0] by (simp add: range_size_def)

lemma visit_cases:
  assumes "visit q = Some qs" "q \<noteq> []" "sum_list q < UINT_MOD"
  shows "(last_p q = Inr True \<and> qs = [q]) \<or>
         (last_p q = Inr False \<and>
          (\<exists>q' qs'. next_p q = Inr q' \<and> length q' = length q \<and> sum_list q' = sum_list q
              \<and> visit q' = Some qs' \<and> qs = q # qs'))"
proof (cases "last q = sum_list q")
  case True
  then have l: "last_p q = Inr True" using assms(2,3) by (simp add: last_p_Inr)
  from visit_last [OF l] assms(1) show ?thesis using l by simp
next
  case False
  then have l: "last_p q = Inr False" using assms(2,3) by (simp add: last_p_Inr)
  from next_p_returns [OF assms(2,3) l] obtain q' where
    q': "next_p q = Inr q'" "length q' = length q" "sum_list q' = sum_list q" by blast
  have "visit q = Option.bind (visit q') (\<lambda>ps. Some (q # ps))"
    by (subst visit.simps) (simp add: l q'(1))
  with assms(1) obtain qs' where "visit q' = Some qs'" "qs = q # qs'"
    by (cases "visit q'") auto
  with l q' show ?thesis by blast
qed

lemma visit_Cons:
  assumes "visit q = Some qs" "q \<noteq> []" "x + sum_list q < UINT_MOD"
  shows "visit (x # q) =
     (if x = 0 then Some (map ((#) 0) qs)
      else Option.bind (visit ((x - 1) # (sum_list q + 1) # replicate (length q - 1) 0))
             (\<lambda>rs. Some (map ((#) x) qs @ rs)))"
  using assms
proof (induction qs arbitrary: q)
  case Nil
  then have "sum_list q < UINT_MOD" by simp
  from visit_cases [OF Nil(1,2) this] show ?case by simp
next
  case (Cons a qs)
  have small: "sum_list q < UINT_MOD" using Cons.prems(3) by simp
  obtain y rest where q: "q = y # rest" using Cons.prems(2) by (cases q) auto
  have lp: "last_p (x # q) = Inr (x = 0 \<and> last q = sum_list q)"
    using Cons.prems(2,3) by (rule last_p_Cons)
  from visit_cases [OF Cons.prems(1,2) small] show ?case
  proof (elim disjE conjE exE)
    assume l: "last_p q = Inr True" and e: "a # qs = [q]"
    then have lq: "last q = sum_list q" using Cons.prems(2) small by (simp add: last_p_Inr)
    show ?thesis
    proof (cases "x = 0")
      case True
      then have "last_p (x # q) = Inr True" using lp lq by simp
      from visit_last [OF this] show ?thesis using True e by simp
    next
      case False
      then have lx: "last_p (x # q) = Inr False" using lp by simp
      have nx: "next_p (x # q) = Inr ((x - 1) # (sum_list q + 1) # replicate (length q - 1) 0)"
        using next_p_suffix_last [of y rest x] l False Cons.prems(3) unfolding q by simp
      show ?thesis
        by (subst visit.simps) (use False e in \<open>simp add: lx nx del: next_p.simps\<close>)
    qed
  next
    fix q' qs'
    assume l: "last_p q = Inr False" and n: "next_p q = Inr q'"
      and len: "length q' = length q" and sm: "sum_list q' = sum_list q"
      and v: "visit q' = Some qs'" and e: "a # qs = q # qs'"
    have ne: "q' \<noteq> []" using len Cons.prems(2) by auto
    have ih: "visit (x # q') =
       (if x = 0 then Some (map ((#) 0) qs')
        else Option.bind (visit ((x - 1) # (sum_list q + 1) # replicate (length q - 1) 0))
               (\<lambda>rs. Some (map ((#) x) qs' @ rs)))"
      using Cons.IH [of q'] v ne Cons.prems(3) e sm len by simp
    have lq: "last q \<noteq> sum_list q" using l Cons.prems(2) small by (simp add: last_p_Inr)
    have lx: "last_p (x # q) = Inr False" using lp lq by simp
    have nx: "next_p (x # q) = Inr (x # q')"
      using l n unfolding q by simp
    have "visit (x # q) = Option.bind (visit (x # q')) (\<lambda>ps. Some ((x # q) # ps))"
      by (subst visit.simps) (simp add: lx nx del: next_p.simps)
    then show ?thesis using ih e
      by (cases "visit ((x - 1) # (sum_list q + 1) # replicate (length q - 1) 0)") auto
  qed
qed

lemma visit_down:
  assumes f: "\<And>s. s < UINT_MOD \<Longrightarrow> visit (s # replicate j 0) = Some (f s)"
  shows "x + s < UINT_MOD \<Longrightarrow> visit (x # s # replicate j 0) = Some (down f x s)"
proof (induction x arbitrary: s)
  case 0
  then have "visit (s # replicate j 0) = Some (f s)" by (intro f) simp
  from visit_Cons [OF this, of 0] 0 show ?case by (simp add: sum_list_replicate)
next
  case (Suc x)
  then have "visit (s # replicate j 0) = Some (f s)" by (intro f) simp
  from visit_Cons [OF this, of "Suc x"] Suc.prems
  have "visit (Suc x # s # replicate j 0) =
      Option.bind (visit (x # Suc s # replicate j 0)) (\<lambda>rs. Some (map ((#) (Suc x)) (f s) @ rs))"
    by (simp add: sum_list_replicate)
  moreover have "visit (x # Suc s # replicate j 0) = Some (down f x (Suc s))"
    using Suc.prems by (intro Suc.IH) simp
  ultimately show ?case by simp
qed

lemma visit_revlex: "n < UINT_MOD \<Longrightarrow> visit (n # replicate j 0) = Some (revlex j n)"
proof (induction j arbitrary: n)
  case 0
  have "last_p [n] = Inr True" using 0 by (simp add: last_p_Inr)
  from visit_last [OF this] show ?case by simp
next
  case (Suc j)
  have "visit (n # 0 # replicate j 0) = Some (down (revlex j) n 0)"
    using Suc.prems by (intro visit_down Suc.IH) simp_all
  then show ?case by simp
qed

lemma length_down: "length (down f x s) = (\<Sum>i\<le>x. length (f (s + i)))"
proof (induction x arbitrary: s)
  case 0
  show ?case by simp
next
  case (Suc x)
  have "(\<Sum>i\<le>Suc x. length (f (s + i))) = length (f s) + (\<Sum>i\<le>x. length (f (s + Suc i)))"
    by (subst sum.atMost_Suc_shift) simp
  then show ?case by (simp add: Suc.IH)
qed

lemma length_revlex: "length (revlex j n) = (n + j) choose n"
proof (induction j arbitrary: n)
  case 0
  show ?case by simp
next
  case (Suc j)
  have "length (revlex (Suc j) n) = (\<Sum>i\<le>n. (j + i) choose i)"
    by (simp add: length_down Suc.IH add.commute)
  also have "\<dots> = Suc (j + n) choose n" by (rule sum_choose_lower)
  finally show ?case by (simp add: add.commute)
qed

lemma set_down:
  "set (down f x s) = {h # t | h t. h \<le> x \<and> t \<in> set (f (s + x - h))}"
proof (induction x arbitrary: s)
  case 0
  show ?case by auto
next
  case (Suc x)
  have "{h # t | h t. h \<le> Suc x \<and> t \<in> set (f (s + Suc x - h))}
      = (#) (Suc x) ` set (f s) \<union> {h # t | h t. h \<le> x \<and> t \<in> set (f (Suc s + x - h))}"
    by (auto simp: le_Suc_eq)
  then show ?case by (simp add: Suc.IH)
qed

lemma set_revlex: "set (revlex j n) = {p. length p = Suc j \<and> sum_list p = n}"
proof (induction j arbitrary: n)
  case 0
  show ?case by (auto simp: length_Suc_conv)
next
  case (Suc j)
  show ?case
  proof (intro set_eqI iffI)
    fix p assume "p \<in> set (revlex (Suc j) n)"
    then show "p \<in> {p. length p = Suc (Suc j) \<and> sum_list p = n}"
      by (auto simp: set_down Suc.IH)
  next
    fix p assume "p \<in> {p. length p = Suc (Suc j) \<and> sum_list p = n}"
    then obtain h t where "p = h # t" "length t = Suc j" "h + sum_list t = n"
      by (cases p) auto
    then show "p \<in> set (revlex (Suc j) n)"
      by (auto simp: set_down Suc.IH)
  qed
qed

lemma distinct_down:
  assumes "\<And>m. distinct (f m)"
  shows "distinct (down f x s)"
proof (induction x arbitrary: s)
  case 0
  show ?case using assms by (simp add: distinct_map)
next
  case (Suc x)
  have "distinct (map ((#) (Suc x)) (f s))" using assms by (simp add: distinct_map)
  moreover have "set (map ((#) (Suc x)) (f s)) \<inter> set (down f x (Suc s)) = {}"
    by (auto simp: set_down)
  ultimately show ?case using Suc.IH by simp
qed

lemma distinct_revlex: "distinct (revlex j n)"
  by (induction j arbitrary: n) (simp_all add: distinct_down)

text \<open>
  C8 (as amended): for \<open>k \<ge> 1\<close> parts and an \<open>n\<close> of the element type such that the
  largest intermediate product of \<^verbatim>\<open>range_size\<close>, \<open>n * C(k+n-1, n)\<close>, is below \<open>2 ^ 63\<close>,
  \<^verbatim>\<open>range_size()\<close> is the binomial coefficient \<open>C(k+n-1, n)\<close>, and stepping with \<open>next\<close>
  from \<open>{n,0,...,0}\<close> until \<open>last\<close> is true ends and visits exactly that many partitions,
  all different: every partition of \<open>n\<close> into \<open>k\<close> parts once.
\<close>

theorem range_size_counts:
  assumes "1 \<le> k" and "n < UINT_MOD" and "n * ((k + n - 1) choose n) < 2 ^ 63"
  shows "\<exists>it ps. make_iterator n k = Inr it
           \<and> range_size it = int ((k + n - 1) choose n)
           \<and> visit (partition_m it) = Some ps
           \<and> distinct ps \<and> int (length ps) = range_size it
           \<and> set ps = {p. length p = k \<and> sum_list p = n}"
proof -
  obtain j where k: "k = Suc j" using assms(1) by (cases k) auto
  let ?p = "n # replicate j 0"
  have m: "make_iterator n k = Inr \<lparr>n_m = n, partition_m = ?p\<rparr>"
    using assms(2) by (simp add: make_iterator_def k)
  have "1 \<le> length ?p" by simp
  moreover have "n * ((length ?p + n - 1) choose n) < 2 ^ 63" using assms(3) k by simp
  ultimately have r: "range_size \<lparr>n_m = n, partition_m = ?p\<rparr> = int ((length ?p + n - 1) choose n)"
    by (rule range_size_binomial)
  have v: "visit ?p = Some (revlex j n)" using assms(2) by (rule visit_revlex)
  have l: "int (length (revlex j n)) = int ((k + n - 1) choose n)"
    by (simp add: length_revlex k add.commute)
  show ?thesis
    using m r v l distinct_revlex [of j n] set_revlex [of j n] by (simp add: k)
qed

theorem range_size_counts_witness:
  "\<exists>it ps. make_iterator 2 3 = Inr it \<and> range_size it = 6
     \<and> visit (partition_m it) = Some ps \<and> distinct ps \<and> int (length ps) = range_size it
     \<and> set ps = {p. length p = 3 \<and> sum_list p = 2}"
proof -
  have a: "(1 :: nat) \<le> 3" and b: "(2 :: nat) < UINT_MOD"
    and c: "(2 :: nat) * ((3 + 2 - 1) choose 2) < 2 ^ 63"
    and d: "((3 + 2 - 1) choose 2 :: nat) = 6"
    by (simp_all add: UINT_MOD_def binomial_code fold_atLeastAtMost_nat.simps fact_numeral)
  show ?thesis using range_size_counts [OF a b c] unfolding d by simp
qed

text \<open>
  C8 as stated fails: for \<open>n = 32\<close> and \<open>k = 32\<close> the product of the last round of the loop
  does not fit 64 bits, and \<^verbatim>\<open>range_size()\<close> is negative, although \<open>C(63, 32)\<close> itself
  fits.
\<close>

theorem range_size_overflow_counterexample:
  "make_iterator 32 32 = Inr \<lparr>n_m = 32, partition_m = (replicate 32 0)[0 := 32]\<rparr>
   \<and> range_size \<lparr>n_m = 32, partition_m = (replicate 32 0)[0 := 32]\<rparr> = - 255204942274371820
   \<and> ((32 + 32 - 1) choose 32 :: nat) = 916312070471295267
   \<and> range_size \<lparr>n_m = 32, partition_m = (replicate 32 0)[0 := 32]\<rparr>
       \<noteq> int ((32 + 32 - 1) choose 32)"
proof -
  have m: "make_iterator 32 32 = Inr \<lparr>n_m = 32, partition_m = (replicate 32 0)[0 := 32]\<rparr>"
    by (simp add: make_iterator_def UINT_MOD_def)
  have r: "range_size \<lparr>n_m = 32, partition_m = (replicate 32 0)[0 := 32]\<rparr>
      = - 255204942274371820"
    by (simp add: range_size_def range_size_loop.simps to_size_t_def to_intmax_t_def
        signed_divide_int_def)
  have c: "((32 + 32 - 1) choose 32 :: nat) = 916312070471295267"
    by (simp add: binomial_code fold_atLeastAtMost_nat.simps fact_numeral)
  show ?thesis unfolding r c using m by simp
qed

section \<open>The canonical index list\<close>

lemma nondecreasing_Suc_step:
  "i < n \<Longrightarrow> nondecreasing (Suc r) i n
     = map ((#) i) (nondecreasing r i n) @ nondecreasing (Suc r) (Suc i) n"
  by (simp add: upt_conv_Cons)

lemma nondecreasing_Suc_empty: "n \<le> i \<Longrightarrow> nondecreasing (Suc r) i n = []"
  by simp

lemma cwr_loop_end: "n \<le> j \<Longrightarrow> cwr inp out result k j n True = Some result"
  by (subst cwr.simps) simp

lemma cwr_loop_step:
  "j < n \<Longrightarrow> j < length inp \<Longrightarrow> cwr inp out result k j n True
     = Option.bind (cwr inp (out @ [inp ! j]) result k j n False)
         (\<lambda>result'. cwr inp out result' k (Suc j) n True)"
  by (subst cwr.simps) simp

lemma cwr_call_base: "int (length out) = k \<Longrightarrow> cwr inp out result k j n False = Some (result @ [out])"
  by (subst cwr.simps) simp

lemma cwr_call_loop:
  "int (length out) \<noteq> k \<Longrightarrow> cwr inp out result k j n False = cwr inp out result k j n True"
  by (subst cwr.simps, subst (2) cwr.simps) simp

lemma cwr_loop_nondecreasing:
  assumes inp: "inp = map int [0..<n]"
    and call: "\<And>out' result' j'. length out' = Suc (length out) \<Longrightarrow>
        cwr inp out' result' k j' n False
          = Some (result' @ map (\<lambda>t. out' @ map int t) (nondecreasing r j' n))"
  shows "cwr inp out result k j n True
          = Some (result @ map (\<lambda>t. out @ map int t) (nondecreasing (Suc r) j n))"
proof (induction "n - j" arbitrary: j result)
  case 0
  then have "n \<le> j" by simp
  then show ?case by (simp add: cwr_loop_end del: nondecreasing.simps add: nondecreasing_Suc_empty)
next
  case (Suc m)
  then have j: "j < n" by simp
  then have jl: "j < length inp" and nth: "inp ! j = int j" by (simp_all add: inp)
  have m: "m = n - Suc j" using Suc.hyps(2) by simp
  have c: "cwr inp (out @ [int j]) result k j n False
      = Some (result @ map (\<lambda>t. (out @ [int j]) @ map int t) (nondecreasing r j n))"
    by (rule call) simp
  show ?case
    by (simp add: cwr_loop_step [OF j jl] nth c Suc.hyps(1) [OF m]
        nondecreasing_Suc_step [OF j] comp_def del: nondecreasing.simps)
qed

lemma cwr_call_nondecreasing:
  assumes inp: "inp = map int [0..<n]"
  shows "int (length out) + int r = k \<Longrightarrow>
    cwr inp out result k j n False = Some (result @ map (\<lambda>t. out @ map int t) (nondecreasing r j n))"
proof (induction r arbitrary: out result j)
  case 0
  then show ?case by (simp add: cwr_call_base)
next
  case (Suc r)
  then have ne: "int (length out) \<noteq> k" by simp
  have "cwr inp out result k j n True
      = Some (result @ map (\<lambda>t. out @ map int t) (nondecreasing (Suc r) j n))"
  proof (rule cwr_loop_nondecreasing [OF inp])
    fix out' :: "int list" and result' j'
    assume "length out' = Suc (length out)"
    then have "int (length out') + int r = k" using Suc.prems by simp
    then show "cwr inp out' result' k j' n False
        = Some (result' @ map (\<lambda>t. out' @ map int t) (nondecreasing r j' n))"
      by (rule Suc.IH)
  qed
  then show ?case by (simp only: cwr_call_loop [OF ne])
qed

lemma generate_multi_index_lookup_eq:
  "0 \<le> deriv_order \<Longrightarrow> generate_multi_index_lookup nparams deriv_order
     = Some (map (map int) (nondecreasing (nat deriv_order) 0 (nat nparams)))"
  using cwr_call_nondecreasing [of "map int [0..<nat nparams]" "nat nparams" "[]"
      "nat deriv_order" deriv_order "[]" 0]
  by (simp add: generate_multi_index_lookup_def cwr_recursion_def)

lemma length_nondecreasing_Suc:
  assumes "\<And>j. length (nondecreasing r j n) = (n - j + r - 1) choose r"
  shows "length (nondecreasing (Suc r) i n) = (n - i + r) choose (Suc r)"
proof (induction "n - i" arbitrary: i)
  case 0
  then show ?case by (simp add: nondecreasing_Suc_empty del: nondecreasing.simps)
next
  case (Suc m)
  then have i: "i < n" and m: "m = n - Suc i" by simp_all
  have ni: "n - i = Suc m" using Suc.hyps(2) by simp
  show ?case
    by (simp add: nondecreasing_Suc_step [OF i] assms Suc.hyps(1) [OF m] ni m [symmetric]
        del: nondecreasing.simps)
qed

lemma length_nondecreasing: "length (nondecreasing r i n) = (n - i + r - 1) choose r"
proof (induction r arbitrary: i)
  case 0
  show ?case by simp
next
  case (Suc r)
  from length_nondecreasing_Suc [of r n i, OF Suc.IH] show ?case by simp
qed

lemma set_nondecreasing:
  "set (nondecreasing r i n) = {t. length t = r \<and> sorted t \<and> set t \<subseteq> {i..<n}}"
proof (induction r arbitrary: i)
  case 0
  show ?case by auto
next
  case (Suc r)
  show ?case
  proof (intro set_eqI iffI)
    fix t assume "t \<in> set (nondecreasing (Suc r) i n)"
    then obtain j u where "j \<in> {i..<n}" "t = j # u" "u \<in> set (nondecreasing r j n)" by auto
    then show "t \<in> {t. length t = Suc r \<and> sorted t \<and> set t \<subseteq> {i..<n}}"
      using Suc.IH [of j] by auto
  next
    fix t assume "t \<in> {t. length t = Suc r \<and> sorted t \<and> set t \<subseteq> {i..<n}}"
    then obtain j u where t: "t = j # u" "length u = r" "sorted (j # u)" "set (j # u) \<subseteq> {i..<n}"
      by (cases t) auto
    then have "u \<in> set (nondecreasing r j n)" unfolding Suc.IH by auto
    moreover have "j \<in> {i..<n}" using t by simp
    ultimately show "t \<in> set (nondecreasing (Suc r) i n)" using t(1) by auto
  qed
qed

lemma sorted_wrt_map_Cons: "sorted_wrt (<) ts \<Longrightarrow> sorted_wrt (<) (map ((#) (j::nat)) ts)"
  by (simp add: sorted_wrt_map)

lemma strict_sorted_nondecreasing_Suc:
  assumes "\<And>j. sorted_wrt (<) (nondecreasing r j n)"
  shows "sorted_wrt (<) (nondecreasing (Suc r) i n)"
proof (induction "n - i" arbitrary: i)
  case 0
  then show ?case by (simp add: nondecreasing_Suc_empty del: nondecreasing.simps)
next
  case (Suc m)
  then have i: "i < n" and m: "m = n - Suc i" by simp_all
  have "a < b" if "a \<in> set (map ((#) i) (nondecreasing r i n))"
    "b \<in> set (nondecreasing (Suc r) (Suc i) n)" for a b
  proof -
    from that(1) obtain u where a: "a = i # u" by auto
    from that(2) obtain j v where b: "b = j # v" "Suc i \<le> j"
      unfolding set_nondecreasing by (cases b) auto
    show ?thesis unfolding a b using b(2) by simp
  qed
  then show ?case
    by (simp add: nondecreasing_Suc_step [OF i] sorted_wrt_append sorted_wrt_map_Cons assms
        Suc.hyps(1) [OF m] del: nondecreasing.simps)
qed

lemma strict_sorted_nondecreasing: "sorted_wrt (<) (nondecreasing r i n)"
  by (induction r arbitrary: i) (simp, rule strict_sorted_nondecreasing_Suc)


lemma map_int_less: "xs < ys \<Longrightarrow> map int xs < map int ys"
proof (induction xs arbitrary: ys)
  case Nil
  then show ?case by (cases ys) simp_all
next
  case (Cons x xs)
  then show ?case by (cases ys) auto
qed

lemma strict_sorted_map_map_int:
  "sorted_wrt (<) ts \<Longrightarrow> sorted_wrt (<) (map (map int) ts)"
  by (simp add: sorted_wrt_map sorted_wrt_mono_rel [of ts "(<)"] map_int_less)

lemma set_map_int_nondecreasing:
  "set (map (map int) (nondecreasing r 0 n))
     = {t. length t = r \<and> sorted t \<and> set t \<subseteq> {0..<int n}}"
proof (intro set_eqI iffI)
  fix t assume "t \<in> set (map (map int) (nondecreasing r 0 n))"
  then obtain u where u: "t = map int u" "length u = r" "sorted u" "set u \<subseteq> {0..<n}"
    unfolding set_map set_nondecreasing by auto
  have "sorted (map int u)" using u(3) by (simp add: sorted_wrt_map)
  then show "t \<in> {t. length t = r \<and> sorted t \<and> set t \<subseteq> {0..<int n}}"
    using u by auto
next
  fix t assume "t \<in> {t. length t = r \<and> sorted t \<and> set t \<subseteq> {0..<int n}}"
  then have t: "length t = r" "sorted t" "set t \<subseteq> {0..<int n}" by simp_all
  have rt: "map int (map nat t) = t" using t(3) by (auto simp: map_idI subset_iff)
  have "sorted (map nat t)" using t(2) by (simp add: sorted_wrt_map sorted_wrt_mono_rel [of t "(\<le>)"])
  moreover have "set (map nat t) \<subseteq> {0..<n}" using t(3) by (fastforce simp: subset_iff)
  ultimately have "map nat t \<in> set (nondecreasing r 0 n)"
    using t(1) unfolding set_nondecreasing by simp
  then have "map int (map nat t) \<in> set (map (map int) (nondecreasing r 0 n))"
    by (simp del: map_map)
  then show "t \<in> set (map (map int) (nondecreasing r 0 n))" by (simp only: rt)
qed

lemma lookup_properties:
  assumes "0 \<le> nparams" "0 \<le> deriv_order"
  shows "\<exists>lookup. generate_multi_index_lookup nparams deriv_order = Some lookup
     \<and> length lookup = (nat nparams + nat deriv_order - 1) choose (nat deriv_order)
     \<and> sorted_wrt (<) lookup \<and> distinct lookup
     \<and> set lookup = {t. length t = nat deriv_order \<and> sorted t \<and> set t \<subseteq> {0..<nparams}}"
proof -
  let ?L = "map (map int) (nondecreasing (nat deriv_order) 0 (nat nparams))"
  have 1: "generate_multi_index_lookup nparams deriv_order = Some ?L"
    using assms(2) by (rule generate_multi_index_lookup_eq)
  have 2: "length ?L = (nat nparams + nat deriv_order - 1) choose (nat deriv_order)"
    by (simp add: length_nondecreasing)
  have 3: "sorted_wrt (<) ?L"
    by (rule strict_sorted_map_map_int) (rule strict_sorted_nondecreasing)
  then have 4: "distinct ?L" using strict_sorted_iff by blast
  have 5: "set ?L = {t. length t = nat deriv_order \<and> sorted t \<and> set t \<subseteq> {0..<nparams}}"
    using set_map_int_nondecreasing [of "nat deriv_order" "nat nparams"] assms(1) by simp
  show ?thesis using 1 2 3 4 5 by blast
qed

text \<open>
  C2: for \<open>nparams \<ge> 1\<close> and \<open>deriv_order \<ge> 1\<close>, \<^verbatim>\<open>generate_multi_index_lookup\<close> returns a
  list of length \<open>C(nparams+deriv_order-1, deriv_order)\<close>, strictly ascending in the
  lexicographic order, whose elements are exactly the non-decreasing tuples of length
  \<open>deriv_order\<close> over \<open>[0, nparams)\<close>, each of them once.
\<close>

theorem multi_index_lookup_complete:
  assumes "1 \<le> nparams" and "1 \<le> deriv_order"
  shows "\<exists>lookup. generate_multi_index_lookup nparams deriv_order = Some lookup
     \<and> length lookup = nat (nparams + deriv_order - 1) choose nat deriv_order
     \<and> sorted_wrt (<) lookup
     \<and> set lookup = {t. length t = nat deriv_order \<and> sorted t \<and> set t \<subseteq> {0..<nparams}}
     \<and> (\<forall>t. count_list lookup t
           = (if length t = nat deriv_order \<and> sorted t \<and> set t \<subseteq> {0..<nparams} then 1 else 0))"
proof -
  from assms have "0 \<le> nparams" "0 \<le> deriv_order" by simp_all
  from lookup_properties [OF this] obtain lookup where
    L: "generate_multi_index_lookup nparams deriv_order = Some lookup"
      "length lookup = (nat nparams + nat deriv_order - 1) choose (nat deriv_order)"
      "sorted_wrt (<) lookup" "distinct lookup"
      "set lookup = {t. length t = nat deriv_order \<and> sorted t \<and> set t \<subseteq> {0..<nparams}}"
    by blast
  have "nat nparams + nat deriv_order - 1 = nat (nparams + deriv_order - 1)"
    using assms by simp
  with L(2) have len: "length lookup = nat (nparams + deriv_order - 1) choose nat deriv_order"
    by simp
  have cnt: "count_list lookup t
      = (if length t = nat deriv_order \<and> sorted t \<and> set t \<subseteq> {0..<nparams} then 1 else 0)" for t
  proof -
    have "count (mset lookup) t = (if t \<in> set lookup then 1 else 0)"
      using L(4) by (simp add: distinct_count_atmost_1)
    then show ?thesis by (simp add: count_mset L(5))
  qed
  show ?thesis using L(1) len L(3) L(5) cnt by blast
qed

theorem multi_index_lookup_complete_witness:
  "generate_multi_index_lookup 2 2 = Some [[0, 0], [0, 1], [1, 1]]
   \<and> length [[0, 0], [0, 1], [1, 1 :: int]] = nat (2 + 2 - 1) choose nat 2
   \<and> sorted_wrt (<) [[0, 0], [0, 1], [1, 1 :: int]]
   \<and> count_list [[0, 0], [0, 1], [1, 1 :: int]] [0, 1] = 1
   \<and> count_list [[0, 0], [0, 1], [1, 1 :: int]] [1, 0] = 0"
proof -
  have g: "generate_multi_index_lookup 2 2 = Some [[0, 0], [0, 1], [1, 1]]"
    by (simp add: generate_multi_index_lookup_eq numeral_2_eq_2 upt_rec)
  have a: "(1 :: int) \<le> 2" by simp
  from multi_index_lookup_complete [OF a a] g
  have "length [[0, 0], [0, 1], [1, 1 :: int]] = nat (2 + 2 - 1) choose nat 2"
    and "sorted_wrt (<) [[0, 0], [0, 1], [1, 1 :: int]]"
    and c: "\<And>t. count_list [[0, 0], [0, 1], [1, 1 :: int]] t
           = (if length t = nat 2 \<and> sorted t \<and> set t \<subseteq> {0..<2} then 1 else 0)"
    by auto
  moreover have "count_list [[0, 0], [0, 1], [1, 1 :: int]] [0, 1] = 1"
    by (subst c) simp
  moreover have "count_list [[0, 0], [0, 1], [1, 1 :: int]] [1, 0] = 0"
    by (subst c) simp
  ultimately show ?thesis using g by blast
qed

section \<open>The binary search\<close>

declare lower_bound_loop.simps [simp del]

lemma lb_step_lt: "0 < len \<Longrightarrow> xs ! (first + len div 2) < v \<Longrightarrow>
  lower_bound_loop xs first len v = lower_bound_loop xs (first + len div 2 + 1) (len - len div 2 - 1) v"
  by (subst lower_bound_loop.simps) (simp add: Let_def)

lemma lb_step_ge: "0 < len \<Longrightarrow> \<not> xs ! (first + len div 2) < v \<Longrightarrow>
  lower_bound_loop xs first len v = lower_bound_loop xs first (len div 2) v"
  by (subst lower_bound_loop.simps) (simp add: Let_def)

lemma lb_stop: "lower_bound_loop xs first 0 v = first"
  by (subst lower_bound_loop.simps) simp

lemma lower_bound_loop_bounds:
  "sorted xs \<Longrightarrow> first + len \<le> length xs \<Longrightarrow> (\<forall>i<first. xs ! i < v)
    \<Longrightarrow> (\<forall>i. first + len \<le> i \<and> i < length xs \<longrightarrow> \<not> xs ! i < v)
    \<Longrightarrow> first \<le> lower_bound_loop xs first len v
      \<and> lower_bound_loop xs first len v \<le> first + len
      \<and> (\<forall>i<lower_bound_loop xs first len v. xs ! i < v)
      \<and> (\<forall>i. lower_bound_loop xs first len v \<le> i \<and> i < length xs \<longrightarrow> \<not> xs ! i < v)"
proof (induction xs first len v rule: lower_bound_loop.induct)
  case (1 xs first len v)
  note srt = "1.prems"(1) and p1 = "1.prems"(2) and p2 = "1.prems"(3) and p3 = "1.prems"(4)
  show ?case
  proof (cases "0 < len")
    case False
    then have "lower_bound_loop xs first len v = first"
      by (simp add: lb_stop)
    then show ?thesis using p1 p2 p3 False by simp
  next
    case True
    define half where "half = len div 2"
    define middle where "middle = first + half"
    have mid: "middle < length xs" "half < len"
      using True p1 by (simp_all add: middle_def half_def)
    show ?thesis
    proof (cases "xs ! middle < v")
      case lt: True
      have eq: "lower_bound_loop xs first len v = lower_bound_loop xs (middle + 1) (len - half - 1) v"
        using True lt unfolding half_def middle_def by (rule lb_step_lt)
      have below: "\<forall>i<middle + 1. xs ! i < v"
      proof (intro allI impI)
        fix i assume "i < middle + 1"
        then have "i \<le> middle" by simp
        with srt have "xs ! i \<le> xs ! middle" using mid(1) by (rule sorted_nth_mono)
        then show "xs ! i < v" using lt by simp
      qed
      have r1: "middle + 1 + (len - half - 1) \<le> length xs"
        using p1 mid by (simp add: middle_def)
      have r3: "\<forall>i. middle + 1 + (len - half - 1) \<le> i \<and> i < length xs \<longrightarrow> \<not> xs ! i < v"
        using p3 mid by (simp add: middle_def)
      let ?r = "lower_bound_loop xs (middle + 1) (len - half - 1) v"
      from "1.IH"(1) [OF True half_def middle_def lt srt r1 below r3]
      have A: "middle + 1 \<le> ?r" and B: "?r \<le> middle + 1 + (len - half - 1)"
        and C: "\<forall>i<?r. xs ! i < v"
        and D: "\<forall>i. ?r \<le> i \<and> i < length xs \<longrightarrow> \<not> xs ! i < v"
        by blast+
      have "first \<le> ?r" using A by (simp add: middle_def)
      moreover have "?r \<le> first + len" using B mid(2) by (simp add: middle_def)
      ultimately show ?thesis unfolding eq using C D by blast
    next
      case ge: False
      have eq: "lower_bound_loop xs first len v = lower_bound_loop xs first half v"
        using True ge unfolding half_def middle_def by (rule lb_step_ge)
      have r1: "first + half \<le> length xs" using mid by (simp add: middle_def)
      have r3: "\<forall>i. first + half \<le> i \<and> i < length xs \<longrightarrow> \<not> xs ! i < v"
      proof (intro allI impI)
        fix i assume i: "first + half \<le> i \<and> i < length xs"
        then have "middle \<le> i" "i < length xs" by (simp_all add: middle_def)
        with srt have "xs ! middle \<le> xs ! i" by (rule sorted_nth_mono)
        then show "\<not> xs ! i < v" using ge by simp
      qed
      let ?r = "lower_bound_loop xs first half v"
      from "1.IH"(2) [OF True half_def middle_def ge srt r1 p2 r3]
      have A: "first \<le> ?r" and B: "?r \<le> first + half"
        and C: "\<forall>i<?r. xs ! i < v"
        and D: "\<forall>i. ?r \<le> i \<and> i < length xs \<longrightarrow> \<not> xs ! i < v"
        by blast+
      have "?r \<le> first + len" using B mid(2) by simp
      then show ?thesis unfolding eq using A C D by blast
    qed
  qed
qed

lemma lower_bound_bounds:
  assumes "sorted xs"
  shows "lower_bound xs v \<le> length xs
    \<and> (\<forall>i<lower_bound xs v. xs ! i < v)
    \<and> (\<forall>i. lower_bound xs v \<le> i \<and> i < length xs \<longrightarrow> \<not> xs ! i < v)"
proof -
  have a: "0 + length xs \<le> length xs" and b: "\<forall>i<0. xs ! i < v"
    and c: "\<forall>i. 0 + length xs \<le> i \<and> i < length xs \<longrightarrow> \<not> xs ! i < v"
    by auto
  from lower_bound_loop_bounds [OF assms a b c] show ?thesis
    unfolding lower_bound_def by simp
qed

lemma lower_bound_nth:
  assumes "sorted_wrt (<) xs" "i < length xs"
  shows "lower_bound xs (xs ! i) = i"
proof -
  have s: "sorted xs" using assms(1) by (rule strict_sorted_imp_sorted)
  let ?r = "lower_bound xs (xs ! i)"
  note b = lower_bound_bounds [OF s, of "xs ! i"]
  have "\<not> i < ?r" using b by auto
  moreover have "\<not> ?r < i"
  proof
    assume lt: "?r < i"
    then have "xs ! ?r < xs ! i" using assms by (simp add: sorted_wrt_nth_less)
    moreover have "\<not> xs ! ?r < xs ! i" using b lt assms(2) by auto
    ultimately show False by simp
  qed
  ultimately show ?thesis by simp
qed


lemma new_idx_member:
  assumes "sorted_wrt (<) lookup" "t \<in> set lookup"
  shows "0 \<le> new_idx lookup t \<and> new_idx lookup t < int (length lookup)
    \<and> lookup ! nat (new_idx lookup t) = t \<and> new_idx lookup t = int (lower_bound lookup t)"
proof -
  from assms(2) obtain j where j: "j < length lookup" "lookup ! j = t"
    by (auto simp: in_set_conv_nth)
  have "lower_bound lookup t = j" using lower_bound_nth [OF assms(1) j(1)] j(2) by simp
  then show ?thesis using j by (simp add: new_idx_def)
qed

lemma new_idx_nth:
  "sorted_wrt (<) lookup \<Longrightarrow> i < length lookup \<Longrightarrow> new_idx lookup (lookup ! i) = int i"
  by (simp add: new_idx_def lower_bound_nth)

section \<open>Permutations and canonical tuples\<close>

lemma at_Inr: "0 \<le> i \<Longrightarrow> i < int (length v) \<Longrightarrow> at v i = Inr (v ! nat i)"
  by (simp add: at_def)

lemma apply_perm_range:
  assumes "perm_on N p" "x \<in> {0..<int N}"
  shows "apply_perm p f x \<in> {0..<int N}"
proof -
  have "nat x < length p" using assms by (auto simp: perm_on_def)
  then have "p ! nat x \<in> set p" by simp
  then have "p ! nat x \<in> {0..<int N}" using assms(1) by (auto simp: perm_on_def)
  then show ?thesis using assms(2) by (simp add: apply_perm_def)
qed

lemma apply_perm_inj:
  assumes "perm_on N p"
  shows "inj_on (apply_perm p f) {0..<int N}"
proof (rule inj_onI)
  fix x y assume x: "x \<in> {0..<int N}" and y: "y \<in> {0..<int N}"
    and e: "apply_perm p f x = apply_perm p f y"
  show "x = y"
  proof (cases "f = 1")
    case True
    have "nat x < length p" "nat y < length p" using assms x y by (auto simp: perm_on_def)
    moreover have "distinct p" using assms by (simp add: perm_on_def)
    moreover have "p ! nat x = p ! nat y" using e True by (simp add: apply_perm_def)
    ultimately have "nat x = nat y" by (simp add: nth_eq_iff_index_eq)
    then show ?thesis using x y by (simp add: eq_nat_nat_iff)
  next
    case False
    then show ?thesis using e by (simp add: apply_perm_def)
  qed
qed

lemma permuted_range:
  "valid_shape N sh \<Longrightarrow> x \<in> {0..<int N} \<Longrightarrow> permuted sh a b c x \<in> {0..<int N}"
  unfolding permuted_def valid_shape_def by (intro apply_perm_range) simp_all

lemma permuted_inj:
  assumes "valid_shape N sh"
  shows "inj_on (permuted sh a b c) {0..<int N}"
proof (rule inj_onI)
  fix x y assume x: "x \<in> {0..<int N}" and y: "y \<in> {0..<int N}"
    and e: "permuted sh a b c x = permuted sh a b c y"
  note v = assms [unfolded valid_shape_def]
  let ?f = "apply_perm (swap_braket_perm sh) a"
  let ?g = "apply_perm (swap_bra_perm sh) b"
  have fx: "?f x \<in> {0..<int N}" and fy: "?f y \<in> {0..<int N}"
    using v x y by (blast intro: apply_perm_range)+
  have gx: "?g (?f x) \<in> {0..<int N}" and gy: "?g (?f y) \<in> {0..<int N}"
    using v fx fy by (blast intro: apply_perm_range)+
  from e have "?g (?f x) = ?g (?f y)"
    unfolding permuted_def using v gx gy by (metis apply_perm_inj inj_onD)
  then have "?f x = ?f y" using fx fy v by (metis apply_perm_inj inj_onD)
  then show "x = y" using x y v by (metis apply_perm_inj inj_onD)
qed

lemma permute_index_eq:
  assumes "valid_shape N sh" "x \<in> {0..<int N}"
  shows "permute_index sh a b c x = Inr (permuted sh a b c x)"
proof -
  note v = assms(1) [unfolded valid_shape_def]
  let ?x1 = "apply_perm (swap_braket_perm sh) a x"
  let ?x2 = "apply_perm (swap_bra_perm sh) b ?x1"
  have r1: "?x1 \<in> {0..<int N}" using v assms(2) by (blast intro: apply_perm_range)
  have r2: "?x2 \<in> {0..<int N}" using v r1 by (blast intro: apply_perm_range)
  have len: "length (swap_braket_perm sh) = N" "length (swap_bra_perm sh) = N"
    "length (swap_ket_perm sh) = N" using v by (simp_all add: perm_on_def)
  have 1: "(if a = 1 then at (swap_braket_perm sh) x else Inr x) = Inr ?x1"
    using assms(2) len by (simp add: apply_perm_def at_Inr)
  have 2: "(if b = 1 then at (swap_bra_perm sh) ?x1 else Inr ?x1) = Inr ?x2"
    using r1 len by (simp add: apply_perm_def [of _ b] at_Inr)
  have 3: "(if c = 1 then at (swap_ket_perm sh) ?x2 else Inr ?x2) = Inr (permuted sh a b c x)"
    using r2 len by (simp add: apply_perm_def [of _ c] permuted_def at_Inr)
  show ?thesis by (simp only: permute_index_def 1 2 3 sum.case)
qed

lemma permuted_indices_acc:
  assumes "valid_shape N sh"
  shows "set t \<subseteq> {0..<int N} \<Longrightarrow>
    for_each t (\<lambda>idx acc. case permute_index sh a b c idx of
                    Inl e \<Rightarrow> Inl e | Inr idx' \<Rightarrow> Inr (acc @ [idx'])) acc
      = Inr (acc @ map (permuted sh a b c) t)"
proof (induction t arbitrary: acc)
  case Nil
  show ?case by simp
next
  case (Cons x t)
  have "x \<in> {0..<int N}" using Cons.prems by simp
  with assms have "permute_index sh a b c x = Inr (permuted sh a b c x)"
    by (rule permute_index_eq)
  then show ?case using Cons by simp
qed

lemma permuted_indices_eq:
  "valid_shape N sh \<Longrightarrow> set t \<subseteq> {0..<int N} \<Longrightarrow>
   permuted_indices sh a b c t = Inr (map (permuted sh a b c) t)"
  unfolding permuted_indices_def by (simp add: permuted_indices_acc)

lemma canonical_tuples:
  assumes "valid_shape N sh" "t \<in> tuples N r"
  shows "canonical sh a b c t \<in> tuples N r"
proof -
  have "permuted sh a b c ` set t \<subseteq> {0..<int N}"
    using assms permuted_range [OF assms(1)] by (auto simp: tuples_def)
  then show ?thesis using assms(2) by (simp add: tuples_def canonical_def)
qed

lemma image_mset_inj_eq:
  assumes "inj_on f A" "set_mset M \<subseteq> A" "set_mset M' \<subseteq> A" "image_mset f M = image_mset f M'"
  shows "M = M'"
proof -
  have inv: "image_mset (inv_into A f) (image_mset f X) = X" if "set_mset X \<subseteq> A" for X
  proof -
    have "image_mset (\<lambda>x. inv_into A f (f x)) X = image_mset (\<lambda>x. x) X"
      using that assms(1) by (intro image_mset_cong) (auto simp: inv_into_f_f)
    then show ?thesis by (simp add: multiset.map_comp comp_def)
  qed
  have "M = image_mset (inv_into A f) (image_mset f M)" using assms(2) by (simp add: inv)
  also have "\<dots> = image_mset (inv_into A f) (image_mset f M')" by (simp only: assms(4))
  also have "\<dots> = M'" using assms(3) by (simp add: inv)
  finally show ?thesis .
qed

lemma sorted_mset_eq: "sorted xs \<Longrightarrow> sorted ys \<Longrightarrow> mset xs = mset ys \<Longrightarrow> xs = (ys :: int list)"
  using properties_for_sort [of ys xs] sorted_sort_id [of xs] by simp

lemma canonical_inj:
  assumes "valid_shape N sh"
  shows "inj_on (canonical sh a b c) (tuples N r)"
proof (rule inj_onI)
  fix t u assume t: "t \<in> tuples N r" and u: "u \<in> tuples N r"
    and e: "canonical sh a b c t = canonical sh a b c u"
  from e have "mset (canonical sh a b c t) = mset (canonical sh a b c u)" by simp
  then have eq: "image_mset (permuted sh a b c) (mset t) = image_mset (permuted sh a b c) (mset u)"
    by (simp add: canonical_def)
  have st: "set_mset (mset t) \<subseteq> {0..<int N}" and su: "set_mset (mset u) \<subseteq> {0..<int N}"
    using t u by (simp_all add: tuples_def)
  have "mset t = mset u"
    by (rule image_mset_inj_eq [OF permuted_inj [OF assms] st su eq])
  then show "t = u" using t u by (intro sorted_mset_eq) (simp_all add: tuples_def)
qed

lemma finite_tuples: "finite (tuples N r)"
proof -
  have "tuples N r \<subseteq> {xs. set xs \<subseteq> {0..<int N} \<and> length xs = r}"
    by (auto simp: tuples_def)
  then show ?thesis by (rule finite_subset) (simp add: finite_lists_length_eq)
qed

lemma canonical_bij:
  assumes "valid_shape N sh"
  shows "bij_betw (canonical sh a b c) (tuples N r) (tuples N r)"
proof -
  have "canonical sh a b c ` tuples N r \<subseteq> tuples N r"
    using canonical_tuples [OF assms] by auto
  with finite_tuples have "canonical sh a b c ` tuples N r = tuples N r"
    using canonical_inj [OF assms] by (rule endo_inj_surj)
  then show ?thesis using canonical_inj [OF assms] by (simp add: bij_betw_def)
qed

lemma entry_eq:
  assumes "valid_shape N sh" "sorted_wrt (<) L" "set L = tuples N r"
    and "0 \<le> i" "i < int (length L)"
  shows "entry sh L a b c i = Inr (int (lower_bound L (canonical sh a b c (L ! nat i))))"
proof -
  have m: "L ! nat i \<in> tuples N r" using assms(3,4,5) by (metis nth_mem nat_less_iff)
  then have s: "set (L ! nat i) \<subseteq> {0..<int N}" by (simp add: tuples_def)
  have "canonical sh a b c (L ! nat i) \<in> set L"
    using canonical_tuples [OF assms(1) m] assms(3) by simp
  from new_idx_member [OF assms(2) this]
  have "new_idx L (canonical sh a b c (L ! nat i))
      = int (lower_bound L (canonical sh a b c (L ! nat i)))" by simp
  then show ?thesis
    using assms(4,5) permuted_indices_eq [OF assms(1) s]
    by (simp add: entry_def at_Inr canonical_def)
qed

section \<open>The loops that fill the table\<close>

lemma for_each_frames:
  assumes "\<And>c m. c \<in> set cs \<Longrightarrow>
        \<exists>m'. body c m = Inr m' \<and> (\<forall>k\<in>K c. m' k = val c k) \<and> (\<forall>k. k \<notin> K c \<longrightarrow> m' k = m k)"
    and "distinct cs"
    and "\<And>c c'. c \<in> set cs \<Longrightarrow> c' \<in> set cs \<Longrightarrow> c \<noteq> c' \<Longrightarrow> K c \<inter> K c' = {}"
  shows "\<exists>m. for_each cs body m0 = Inr m \<and> (\<forall>c\<in>set cs. \<forall>k\<in>K c. m k = val c k)
           \<and> (\<forall>k. k \<notin> (\<Union>c\<in>set cs. K c) \<longrightarrow> m k = m0 k)"
  using assms
proof (induction cs arbitrary: m0)
  case Nil
  show ?case by simp
next
  case (Cons c cs)
  from Cons.prems(1) [of c m0] obtain m1 where
    m1: "body c m0 = Inr m1" "\<forall>k\<in>K c. m1 k = val c k" "\<forall>k. k \<notin> K c \<longrightarrow> m1 k = m0 k"
    by auto
  have "\<exists>m. for_each cs body m1 = Inr m \<and> (\<forall>c\<in>set cs. \<forall>k\<in>K c. m k = val c k)
           \<and> (\<forall>k. k \<notin> (\<Union>c\<in>set cs. K c) \<longrightarrow> m k = m1 k)"
  proof (rule Cons.IH)
    show "\<exists>m'. body c' m = Inr m' \<and> (\<forall>k\<in>K c'. m' k = val c' k) \<and> (\<forall>k. k \<notin> K c' \<longrightarrow> m' k = m k)"
      if "c' \<in> set cs" for c' m using Cons.prems(1) [of c' m] that by simp
    show "distinct cs" using Cons.prems(2) by simp
    show "K a \<inter> K b = {}" if "a \<in> set cs" "b \<in> set cs" "a \<noteq> b" for a b
      using Cons.prems(3) [of a b] that by simp
  qed
  then obtain m where
    m: "for_each cs body m1 = Inr m" "\<forall>c\<in>set cs. \<forall>k\<in>K c. m k = val c k"
       "\<forall>k. k \<notin> (\<Union>c\<in>set cs. K c) \<longrightarrow> m k = m1 k"
    by blast
  have disj: "K c \<inter> (\<Union>c\<in>set cs. K c) = {}"
  proof -
    have "K c \<inter> K c' = {}" if "c' \<in> set cs" for c'
      using Cons.prems(3) [of c c'] Cons.prems(2) that by auto
    then show ?thesis by blast
  qed
  have 1: "for_each (c # cs) body m0 = Inr m" using m1(1) m(1) by simp
  have 2: "\<forall>k\<in>K c. m k = val c k"
  proof
    fix k assume kc: "k \<in> K c"
    with disj have "k \<notin> (\<Union>c\<in>set cs. K c)" by (metis disjoint_iff)
    then have "m k = m1 k" by (rule m(3) [rule_format])
    also have "m1 k = val c k" using kc by (rule m1(2) [rule_format])
    finally show "m k = val c k" .
  qed
  have 3: "\<forall>k. k \<notin> (\<Union>c\<in>set (c # cs). K c) \<longrightarrow> m k = m0 k"
  proof (intro allI impI)
    fix k assume "k \<notin> (\<Union>c\<in>set (c # cs). K c)"
    then have k: "k \<notin> K c" "k \<notin> (\<Union>c\<in>set cs. K c)" by simp_all
    from k(2) have "m k = m1 k" by (rule m(3) [rule_format])
    also from k(1) have "m1 k = m0 k" by (rule m1(3) [rule_format])
    finally show "m k = m0 k" .
  qed
  show ?case
  proof (intro exI [of _ m] conjI)
    show "for_each (c # cs) body m0 = Inr m" by (rule 1)
    show "\<forall>c'\<in>set (c # cs). \<forall>k\<in>K c'. m k = val c' k" using 2 m(2) by auto
    show "\<forall>k. k \<notin> (\<Union>c\<in>set (c # cs). K c) \<longrightarrow> m k = m0 k" by (rule 3)
  qed
qed

lemma for_each_frame_only:
  assumes "for_each cs body m0 = Inr m"
    and "\<And>c m m'. c \<in> set cs \<Longrightarrow> body c m = Inr m' \<Longrightarrow> \<forall>k. k \<notin> K c \<longrightarrow> m' k = m k"
  shows "\<forall>k. k \<notin> (\<Union>c\<in>set cs. K c) \<longrightarrow> m k = m0 k"
  using assms
proof (induction cs arbitrary: m0)
  case Nil
  then show ?case by simp
next
  case (Cons c cs)
  from Cons.prems(1) obtain m1 where m1: "body c m0 = Inr m1" "for_each cs body m1 = Inr m"
    by (cases "body c m0") auto
  have a: "\<forall>k. k \<notin> K c \<longrightarrow> m1 k = m0 k" using Cons.prems(2) [of c m0 m1] m1(1) by simp
  have b: "\<forall>k. k \<notin> (\<Union>c\<in>set cs. K c) \<longrightarrow> m k = m1 k"
  proof (rule Cons.IH [OF m1(2)])
    fix c' m2 m3 assume "c' \<in> set cs" "body c' m2 = Inr m3"
    then show "\<forall>k. k \<notin> K c' \<longrightarrow> m3 k = m2 k" using Cons.prems(2) [of c' m2 m3] by simp
  qed
  show ?case
  proof (intro allI impI)
    fix k assume "k \<notin> (\<Union>c\<in>set (c # cs). K c)"
    then have k: "k \<notin> K c" "k \<notin> (\<Union>c\<in>set cs. K c)" by simp_all
    from k(2) have "m k = m1 k" by (rule b [rule_format])
    also from k(1) have "m1 k = m0 k" by (rule a [rule_format])
    finally show "m k = m0 k" .
  qed
qed

lemma combo_reads:
  "length combo = 3 \<Longrightarrow>
   (at combo 0, at combo 1, at combo 2) = (Inr (combo ! 0), Inr (combo ! 1), Inr (combo ! 2))"
  by (simp add: at_def)

lemma fill_combo_frame:
  assumes "fill_combo sh L nderivs combo m = Inr m'"
  shows "\<forall>k. k \<notin> slice_keys nderivs combo \<longrightarrow> m' k = m k"
proof -
  obtain a b c where r: "at combo 0 = Inr a" "at combo 1 = Inr b" "at combo 2 = Inr c"
    using assms unfolding fill_combo_def
    by (cases "at combo 0"; cases "at combo 1"; cases "at combo 2") simp_all
  then have abc: "a = combo ! 0" "b = combo ! 1" "c = combo ! 2"
    by (auto simp: at_def split: if_splits)
  let ?body = "\<lambda>i m. case entry sh L a b c i of Inl e \<Rightarrow> Inl e
                      | Inr v \<Rightarrow> Inr (m((a, b, c, i) := v))"
  have f: "for_each [0..nderivs - 1] ?body m = Inr m'"
    using assms r by (simp add: fill_combo_def)
  have keys: "(\<Union>i\<in>set [0..nderivs - 1]. {(a, b, c, i)}) = slice_keys nderivs combo"
    by (auto simp: slice_keys_def abc)
  have "\<forall>k. k \<notin> (\<Union>i\<in>set [0..nderivs - 1]. {(a, b, c, i)}) \<longrightarrow> m' k = m k"
  proof (rule for_each_frame_only [OF f])
    fix i :: int and m1 m2 :: tensor
    assume "(case entry sh L a b c i of Inl e \<Rightarrow> Inl e
              | Inr v \<Rightarrow> Inr (m1((a, b, c, i) := v))) = Inr m2"
    then show "\<forall>k. k \<notin> {(a, b, c, i)} \<longrightarrow> m2 k = m1 k"
      by (cases "entry sh L a b c i") auto
  qed
  then show ?thesis unfolding keys .
qed

lemma fill_combo_spec:
  assumes "valid_shape N sh" "sorted_wrt (<) L" "set L = tuples N r" "length combo = 3"
  shows "\<exists>m'. fill_combo sh L (int (length L)) combo m = Inr m'
     \<and> (\<forall>k\<in>slice_keys (int (length L)) combo. m' k = slice_val sh L k)
     \<and> (\<forall>k. k \<notin> slice_keys (int (length L)) combo \<longrightarrow> m' k = m k)"
proof -
  let ?a = "combo ! 0" and ?b = "combo ! 1" and ?c = "combo ! 2"
  let ?n = "int (length L)"
  let ?body = "\<lambda>i m. case entry sh L ?a ?b ?c i of Inl e \<Rightarrow> Inl e
                      | Inr v \<Rightarrow> Inr (m((?a, ?b, ?c, i) := v))"
  have f: "fill_combo sh L ?n combo m = for_each [0..?n - 1] ?body m"
    by (simp only: fill_combo_def combo_reads [OF assms(4)] prod.case sum.case)
  have "\<exists>m'. for_each [0..?n - 1] ?body m = Inr m'
      \<and> (\<forall>i\<in>set [0..?n - 1]. \<forall>k\<in>{(?a, ?b, ?c, i)}. m' k = slice_val sh L (?a, ?b, ?c, i))
      \<and> (\<forall>k. k \<notin> (\<Union>i\<in>set [0..?n - 1]. {(?a, ?b, ?c, i)}) \<longrightarrow> m' k = m k)"
  proof (rule for_each_frames)
    fix i :: int and m1 :: tensor
    assume "i \<in> set [0..?n - 1]"
    then have i: "0 \<le> i" "i < ?n" by simp_all
    have "entry sh L ?a ?b ?c i = Inr (slice_val sh L (?a, ?b, ?c, i))"
      using entry_eq [OF assms(1,2,3) i] by (simp add: slice_val_def)
    then show "\<exists>m'. ?body i m1 = Inr m'
        \<and> (\<forall>k\<in>{(?a, ?b, ?c, i)}. m' k = slice_val sh L (?a, ?b, ?c, i))
        \<and> (\<forall>k. k \<notin> {(?a, ?b, ?c, i)} \<longrightarrow> m' k = m1 k)"
      by simp
  next
    show "distinct [0..?n - 1]" by simp
  next
    fix i j :: int
    assume "i \<noteq> j"
    then show "{(?a, ?b, ?c, i)} \<inter> {(?a, ?b, ?c, j)} = {}" by simp
  qed
  then obtain m' where m': "for_each [0..?n - 1] ?body m = Inr m'"
    "\<forall>i\<in>set [0..?n - 1]. \<forall>k\<in>{(?a, ?b, ?c, i)}. m' k = slice_val sh L (?a, ?b, ?c, i)"
    "\<forall>k. k \<notin> (\<Union>i\<in>set [0..?n - 1]. {(?a, ?b, ?c, i)}) \<longrightarrow> m' k = m k"
    by blast
  have keys: "(\<Union>i\<in>set [0..?n - 1]. {(?a, ?b, ?c, i)}) = slice_keys ?n combo"
    by (auto simp: slice_keys_def)
  have 1: "fill_combo sh L ?n combo m = Inr m'" using m'(1) by (simp only: f)
  have 2: "\<forall>k\<in>slice_keys ?n combo. m' k = slice_val sh L k"
  proof
    fix k assume "k \<in> slice_keys ?n combo"
    then obtain i where i: "k = (?a, ?b, ?c, i)" "0 \<le> i" "i < ?n"
      by (auto simp: slice_keys_def)
    then have "i \<in> set [0..?n - 1]" by simp
    with m'(2) show "m' k = slice_val sh L k" unfolding i(1) by blast
  qed
  have 3: "\<forall>k. k \<notin> slice_keys ?n combo \<longrightarrow> m' k = m k" using m'(3) unfolding keys .
  show ?thesis using 1 2 3 by blast
qed

lemma slice_keys_disjoint:
  assumes "length c1 = 3" "length c2 = 3" "c1 \<noteq> c2"
  shows "slice_keys n c1 \<inter> slice_keys n c2 = {}"
proof -
  have "c1 ! 0 \<noteq> c2 ! 0 \<or> c1 ! 1 \<noteq> c2 ! 1 \<or> c1 ! 2 \<noteq> c2 ! 2"
  proof (rule ccontr)
    assume "\<not> ?thesis"
    then have e: "c1 ! 0 = c2 ! 0" "c1 ! 1 = c2 ! 1" "c1 ! 2 = c2 ! 2" by simp_all
    have "c1 ! i = c2 ! i" if "i < length c1" for i
    proof -
      have "i = 0 \<or> i = 1 \<or> i = 2" using that assms(1) by arith
      then show ?thesis using e by blast
    qed
    then have "c1 = c2" using assms(1,2) by (intro nth_equalityI) simp_all
    then show False using assms(3) by simp
  qed
  then show ?thesis by (auto simp: slice_keys_def)
qed

lemma generate_spec:
  assumes sh: "shape_of braket = Inr sh" and v: "valid_shape N sh"
    and np: "ncenters sh * 3 = int N" and d: "0 \<le> d"
    and hm: "how_many_derivs (ncenters sh) d = Inr (int ((N + nat d - 1) choose nat d))"
    and cd: "distinct (swap_combos sh)" and c3: "\<forall>combo\<in>set (swap_combos sh). length combo = 3"
  shows "\<exists>m L. generate_deriv_index_map new_Tensor d braket = Inr m
     \<and> generate_multi_index_lookup (int N) d = Some L
     \<and> length L = (N + nat d - 1) choose nat d
     \<and> sorted_wrt (<) L \<and> distinct L \<and> set L = tuples N (nat d)
     \<and> (\<forall>combo\<in>set (swap_combos sh). \<forall>k\<in>slice_keys (int (length L)) combo. m k = slice_val sh L k)
     \<and> (\<forall>k. k \<notin> (\<Union>combo\<in>set (swap_combos sh). slice_keys (int (length L)) combo)
           \<longrightarrow> m k = new_Tensor [2, 2, 2, int (length L)] k)"
proof -
  have "0 \<le> int N" by simp
  from lookup_properties [OF this d] obtain L where
    L: "generate_multi_index_lookup (int N) d = Some L"
       "length L = (N + nat d - 1) choose nat d"
       "sorted_wrt (<) L" "distinct L" "set L = tuples N (nat d)"
    by (auto simp: tuples_def)
  let ?n = "int (length L)"
  have g: "generate_deriv_index_map new_Tensor d braket
      = for_each (swap_combos sh) (fill_combo sh L ?n) (new_Tensor [2, 2, 2, ?n])"
    by (simp add: generate_deriv_index_map_def sh hm np L(1,2))
  have "\<exists>m. for_each (swap_combos sh) (fill_combo sh L ?n) (new_Tensor [2, 2, 2, ?n]) = Inr m
      \<and> (\<forall>combo\<in>set (swap_combos sh). \<forall>k\<in>slice_keys ?n combo. m k = slice_val sh L k)
      \<and> (\<forall>k. k \<notin> (\<Union>combo\<in>set (swap_combos sh). slice_keys ?n combo)
            \<longrightarrow> m k = new_Tensor [2, 2, 2, ?n] k)"
  proof (rule for_each_frames)
    fix combo m1
    assume "combo \<in> set (swap_combos sh)"
    then have "length combo = 3" using c3 by simp
    from fill_combo_spec [OF v L(3,5) this]
    show "\<exists>m'. fill_combo sh L ?n combo m1 = Inr m'
        \<and> (\<forall>k\<in>slice_keys ?n combo. m' k = slice_val sh L k)
        \<and> (\<forall>k. k \<notin> slice_keys ?n combo \<longrightarrow> m' k = m1 k)" .
  next
    show "distinct (swap_combos sh)" by (rule cd)
  next
    fix c1 c2
    assume "c1 \<in> set (swap_combos sh)" "c2 \<in> set (swap_combos sh)" "c1 \<noteq> c2"
    then show "slice_keys ?n c1 \<inter> slice_keys ?n c2 = {}"
      using c3 by (intro slice_keys_disjoint) simp_all
  qed
  then obtain m where m: "generate_deriv_index_map new_Tensor d braket = Inr m"
    "\<forall>combo\<in>set (swap_combos sh). \<forall>k\<in>slice_keys ?n combo. m k = slice_val sh L k"
    "\<forall>k. k \<notin> (\<Union>combo\<in>set (swap_combos sh). slice_keys ?n combo)
            \<longrightarrow> m k = new_Tensor [2, 2, 2, ?n] k"
    unfolding g by blast
  show ?thesis
    by (intro exI [of _ m] exI [of _ L] conjI) (fact m L)+
qed

section \<open>The supported shapes\<close>

declare how_many_derivs_loop.simps [simp del]

lemma how_many_derivs_4:
  assumes "1 \<le> d" "d \<le> 7"
  shows "how_many_derivs 4 d = Inr (int ((12 + nat d - 1) choose nat d))"
proof -
  have "d = 1 \<or> d = 2 \<or> d = 3 \<or> d = 4 \<or> d = 5 \<or> d = 6 \<or> d = 7" using assms by arith
  then show ?thesis
    by (elim disjE)
      (simp_all add: how_many_derivs_def how_many_derivs_loop.simps int_ok_def INT_MIN_def
        INT_MAX_def signed_divide_int_def binomial_code fold_atLeastAtMost_nat.simps fact_numeral)
qed

lemma how_many_derivs_3:
  assumes "1 \<le> d" "d \<le> 8"
  shows "how_many_derivs 3 d = Inr (int ((9 + nat d - 1) choose nat d))"
proof -
  have "d = 1 \<or> d = 2 \<or> d = 3 \<or> d = 4 \<or> d = 5 \<or> d = 6 \<or> d = 7 \<or> d = 8"
    using assms by arith
  then show ?thesis
    by (elim disjE)
      (simp_all add: how_many_derivs_def how_many_derivs_loop.simps int_ok_def INT_MIN_def
        INT_MAX_def signed_divide_int_def binomial_code fold_atLeastAtMost_nat.simps fact_numeral)
qed

lemma how_many_derivs_overflow_4: "how_many_derivs 4 8 = Inl SignedOverflow"
  by (simp add: how_many_derivs_def how_many_derivs_loop.simps int_ok_def INT_MIN_def INT_MAX_def)

lemma how_many_derivs_overflow_3: "how_many_derivs 3 9 = Inl SignedOverflow"
  by (simp add: how_many_derivs_def how_many_derivs_loop.simps int_ok_def INT_MIN_def INT_MAX_def)

lemma shape_xx_xx:
  assumes "shape_of xx_xx = Inr sh"
  shows "valid_shape 12 sh" "ncenters sh * 3 = int 12" "distinct (swap_combos sh)"
    "\<forall>combo\<in>set (swap_combos sh). length combo = 3"
  using assms by (auto simp: valid_shape_def perm_on_def)

lemma shape_xs_xx:
  assumes "shape_of xs_xx = Inr sh"
  shows "valid_shape 9 sh" "ncenters sh * 3 = int 9" "distinct (swap_combos sh)"
    "\<forall>combo\<in>set (swap_combos sh). length combo = 3"
  using assms by (auto simp: valid_shape_def perm_on_def)

lemma generate_supported:
  assumes "braket = xx_xx \<or> braket = xs_xx" "1 \<le> d" "d \<le> max_order braket"
  shows "\<exists>m L sh. shape_of braket = Inr sh \<and> valid_shape (nparams_of braket) sh
     \<and> generate_deriv_index_map new_Tensor d braket = Inr m
     \<and> how_many_derivs (ncenters sh) d = Inr (nderivs_of braket d)
     \<and> generate_multi_index_lookup (int (nparams_of braket)) d = Some L
     \<and> int (length L) = nderivs_of braket d
     \<and> sorted_wrt (<) L \<and> distinct L \<and> set L = tuples (nparams_of braket) (nat d)
     \<and> (\<forall>combo\<in>set (swap_combos sh).
           \<forall>k\<in>slice_keys (nderivs_of braket d) combo. m k = slice_val sh L k)
     \<and> (\<forall>k. k \<notin> (\<Union>combo\<in>set (swap_combos sh). slice_keys (nderivs_of braket d) combo)
           \<longrightarrow> m k = new_Tensor [2, 2, 2, nderivs_of braket d] k)"
proof -
  obtain sh where sh: "shape_of braket = Inr sh" using assms(1) by auto
  have facts: "valid_shape (nparams_of braket) sh" "ncenters sh * 3 = int (nparams_of braket)"
    "distinct (swap_combos sh)" "\<forall>combo\<in>set (swap_combos sh). length combo = 3"
    using assms(1) sh shape_xx_xx [of sh] shape_xs_xx [of sh] by auto
  have nc: "ncenters sh = (if braket = xx_xx then 4 else 3)" using assms(1) sh by auto
  have hm: "how_many_derivs (ncenters sh) d
      = Inr (int ((nparams_of braket + nat d - 1) choose nat d))"
    using assms how_many_derivs_4 [of d] how_many_derivs_3 [of d] nc by auto
  have d0: "0 \<le> d" using assms(2) by simp
  from generate_spec [OF sh facts(1,2) d0 hm facts(3,4), of new_Tensor]
  obtain m L where
    "generate_deriv_index_map new_Tensor d braket = Inr m"
    "generate_multi_index_lookup (int (nparams_of braket)) d = Some L"
    "length L = (nparams_of braket + nat d - 1) choose nat d"
    "sorted_wrt (<) L" "distinct L" "set L = tuples (nparams_of braket) (nat d)"
    "\<forall>combo\<in>set (swap_combos sh). \<forall>k\<in>slice_keys (int (length L)) combo. m k = slice_val sh L k"
    "\<forall>k. k \<notin> (\<Union>combo\<in>set (swap_combos sh). slice_keys (int (length L)) combo)
           \<longrightarrow> m k = new_Tensor [2, 2, 2, int (length L)] k"
    by blast
  moreover from this(3) have "int (length L) = nderivs_of braket d" by (simp add: nderivs_of_def)
  ultimately show ?thesis using sh facts(1) hm
    by (intro exI [of _ m] exI [of _ L] exI [of _ sh]) (simp add: nderivs_of_def)
qed

lemma nth_in_tuples:
  "set L = tuples N r \<Longrightarrow> 0 \<le> i \<Longrightarrow> i < int (length L) \<Longrightarrow> L ! nat i \<in> tuples N r"
  by (metis nth_mem nat_less_iff)

lemma slice_val_position:
  assumes "valid_shape N sh" "sorted_wrt (<) L" "set L = tuples N r"
    and "0 \<le> i" "i < int (length L)"
  shows "0 \<le> slice_val sh L (a, b, c, i)" "slice_val sh L (a, b, c, i) < int (length L)"
    "L ! nat (slice_val sh L (a, b, c, i)) = canonical sh a b c (L ! nat i)"
proof -
  have "canonical sh a b c (L ! nat i) \<in> set L"
    using canonical_tuples [OF assms(1) nth_in_tuples [OF assms(3,4,5)]] assms(3) by simp
  from new_idx_member [OF assms(2) this]
  have n: "0 \<le> new_idx L (canonical sh a b c (L ! nat i))"
    "new_idx L (canonical sh a b c (L ! nat i)) < int (length L)"
    "L ! nat (new_idx L (canonical sh a b c (L ! nat i))) = canonical sh a b c (L ! nat i)"
    "new_idx L (canonical sh a b c (L ! nat i)) = int (lower_bound L (canonical sh a b c (L ! nat i)))"
    by blast+
  have e: "slice_val sh L (a, b, c, i) = new_idx L (canonical sh a b c (L ! nat i))"
    by (simp add: slice_val_def n(4))
  show "0 \<le> slice_val sh L (a, b, c, i)" "slice_val sh L (a, b, c, i) < int (length L)"
    "L ! nat (slice_val sh L (a, b, c, i)) = canonical sh a b c (L ! nat i)"
    unfolding e by (fact n)+
qed

lemma slice_val_inj:
  assumes "valid_shape N sh" "sorted_wrt (<) L" "set L = tuples N r"
  shows "inj_on (\<lambda>i. slice_val sh L (a, b, c, i)) {0..<int (length L)}"
proof (rule inj_onI)
  fix i j assume i: "i \<in> {0..<int (length L)}" and j: "j \<in> {0..<int (length L)}"
    and e: "slice_val sh L (a, b, c, i) = slice_val sh L (a, b, c, j)"
  have i': "0 \<le> i" "i < int (length L)" and j': "0 \<le> j" "j < int (length L)"
    using i j by simp_all
  have "canonical sh a b c (L ! nat i) = canonical sh a b c (L ! nat j)"
    using slice_val_position(3) [OF assms i', of a b c]
      slice_val_position(3) [OF assms j', of a b c] e by simp
  then have "L ! nat i = L ! nat j"
    using canonical_inj [OF assms(1), of a b c r]
      nth_in_tuples [OF assms(3) i'] nth_in_tuples [OF assms(3) j']
    by (auto dest: inj_onD)
  moreover have "distinct L" using assms(2) strict_sorted_iff by blast
  ultimately have "nat i = nat j" using i' j' by (simp add: nth_eq_iff_index_eq)
  then show "i = j" using i' j' by (simp add: eq_nat_nat_iff)
qed

lemma slice_val_bij:
  assumes "valid_shape N sh" "sorted_wrt (<) L" "set L = tuples N r"
  shows "bij_betw (\<lambda>i. slice_val sh L (a, b, c, i)) {0..<int (length L)} {0..<int (length L)}"
proof -
  let ?f = "\<lambda>i. slice_val sh L (a, b, c, i)"
  have "?f ` {0..<int (length L)} \<subseteq> {0..<int (length L)}"
    using slice_val_position(1,2) [OF assms] by auto
  then have "?f ` {0..<int (length L)} = {0..<int (length L)}"
    using slice_val_inj [OF assms] by (intro endo_inj_surj) simp_all
  then show ?thesis using slice_val_inj [OF assms] by (simp add: bij_betw_def)
qed

lemma canonical_identity:
  assumes "sorted t"
  shows "canonical sh 0 0 0 t = t"
proof -
  have "permuted sh 0 0 0 = (\<lambda>x. x)"
    by (simp add: fun_eq_iff permuted_def apply_perm_def)
  then show ?thesis using assms by (simp add: canonical_def sorted_sort_id)
qed

lemma canonical_involution:
  assumes "\<forall>x\<in>{0..<int N}. permuted sh a b c (permuted sh a b c x) = x"
    and "valid_shape N sh" "t \<in> tuples N r"
  shows "canonical sh a b c (canonical sh a b c t) = t"
proof -
  let ?s = "permuted sh a b c"
  have "mset (canonical sh a b c (canonical sh a b c t)) = image_mset ?s (image_mset ?s (mset t))"
    by (simp add: canonical_def)
  also have "\<dots> = image_mset (\<lambda>x. ?s (?s x)) (mset t)"
    by (simp add: multiset.map_comp comp_def)
  also have "\<dots> = image_mset (\<lambda>x. x) (mset t)"
    using assms(1,3) by (intro image_mset_cong) (auto simp: tuples_def)
  finally have "mset (canonical sh a b c (canonical sh a b c t)) = mset t" by simp
  moreover have "sorted (canonical sh a b c (canonical sh a b c t))" by (simp add: canonical_def)
  moreover have "sorted t" using assms(3) by (simp add: tuples_def)
  ultimately show ?thesis by (intro sorted_mset_eq)
qed

lemma ket_swap_self_inverse:
  assumes "braket = xx_xx \<or> braket = xs_xx" "shape_of braket = Inr sh"
  shows "\<forall>x\<in>{0..<int (nparams_of braket)}. permuted sh 0 0 1 (permuted sh 0 0 1 x) = x"
proof
  fix x assume x: "x \<in> {0..<int (nparams_of braket)}"
  from assms(1) show "permuted sh 0 0 1 (permuted sh 0 0 1 x) = x"
  proof
    assume b: "braket = xx_xx"
    then have "x = 0 \<or> x = 1 \<or> x = 2 \<or> x = 3 \<or> x = 4 \<or> x = 5 \<or> x = 6 \<or> x = 7
        \<or> x = 8 \<or> x = 9 \<or> x = 10 \<or> x = 11"
      using x by (simp, arith)
    then show ?thesis using assms(2) b
      by (elim disjE) (auto simp: permuted_def apply_perm_def)
  next
    assume b: "braket = xs_xx"
    then have "x = 0 \<or> x = 1 \<or> x = 2 \<or> x = 3 \<or> x = 4 \<or> x = 5 \<or> x = 6 \<or> x = 7
        \<or> x = 8"
      using x by (simp, arith)
    then show ?thesis using assms(2) b
      by (elim disjE) (auto simp: permuted_def apply_perm_def)
  qed
qed

section \<open>Properties of the slices\<close>

lemma combo_keys:
  "0 \<le> i \<Longrightarrow> i < n \<Longrightarrow> (combo ! 0, combo ! 1, combo ! 2, i) \<in> slice_keys n combo"
  by (auto simp: slice_keys_def)

lemma generate_overflow:
  assumes "shape_of braket = Inr sh" "how_many_derivs (ncenters sh) d = Inl SignedOverflow"
  shows "generate_deriv_index_map new_Tensor d braket = Inl SignedOverflow"
  using assms by (simp add: generate_deriv_index_map_def)

lemma how_many_derivs_overflow_4_9: "how_many_derivs 4 9 = Inl SignedOverflow"
  by (simp add: how_many_derivs_def how_many_derivs_loop.simps int_ok_def INT_MIN_def INT_MAX_def)

text \<open>
  C3 (as amended): for the shapes \<open>xx_xx\<close> and \<open>xs_xx\<close> and every derivative order from 1
  to the largest one at which \<^verbatim>\<open>how_many_derivs\<close> does not overflow (7 for \<open>xx_xx\<close>, 8 for
  \<open>xs_xx\<close>), \<^verbatim>\<open>generate_deriv_index_map\<close> returns a table, and for every symmetry
  combination \<open>(a,b,c)\<close> of the shape's list the map \<open>i \<mapsto> map[a][b][c][i]\<close> is a bijection on
  \<open>[0, nderivs)\<close>.
\<close>

theorem slices_bijective:
  assumes "braket = xx_xx \<or> braket = xs_xx"
    and "1 \<le> deriv_order" and "deriv_order \<le> max_order braket"
  shows "\<exists>m sh nderivs. generate_deriv_index_map new_Tensor deriv_order braket = Inr m
     \<and> shape_of braket = Inr sh
     \<and> how_many_derivs (ncenters sh) deriv_order = Inr nderivs
     \<and> nderivs = int ((nparams_of braket + nat deriv_order - 1) choose nat deriv_order)
     \<and> (\<forall>combo\<in>set (swap_combos sh).
          bij_betw (\<lambda>i. m (combo ! 0, combo ! 1, combo ! 2, i)) {0..<nderivs} {0..<nderivs})"
proof -
  from generate_supported [OF assms, of new_Tensor] obtain m L sh where
    g: "shape_of braket = Inr sh" "valid_shape (nparams_of braket) sh"
      "generate_deriv_index_map new_Tensor deriv_order braket = Inr m"
      "how_many_derivs (ncenters sh) deriv_order = Inr (nderivs_of braket deriv_order)"
      "int (length L) = nderivs_of braket deriv_order"
      "sorted_wrt (<) L" "set L = tuples (nparams_of braket) (nat deriv_order)"
      "\<forall>combo\<in>set (swap_combos sh).
           \<forall>k\<in>slice_keys (nderivs_of braket deriv_order) combo. m k = slice_val sh L k"
    by blast
  let ?n = "nderivs_of braket deriv_order"
  have "bij_betw (\<lambda>i. m (combo ! 0, combo ! 1, combo ! 2, i)) {0..<?n} {0..<?n}"
    if c: "combo \<in> set (swap_combos sh)" for combo
  proof -
    have b: "bij_betw (\<lambda>i. slice_val sh L (combo ! 0, combo ! 1, combo ! 2, i)) {0..<?n} {0..<?n}"
      using slice_val_bij [OF g(2,6,7)] unfolding g(5) .
    have e: "\<forall>i\<in>{0..<?n}. m (combo ! 0, combo ! 1, combo ! 2, i)
        = slice_val sh L (combo ! 0, combo ! 1, combo ! 2, i)"
    proof
      fix i assume "i \<in> {0..<?n}"
      then have "0 \<le> i" "i < ?n" by simp_all
      then show "m (combo ! 0, combo ! 1, combo ! 2, i)
          = slice_val sh L (combo ! 0, combo ! 1, combo ! 2, i)"
        by (intro g(8) [rule_format, OF c] combo_keys)
    qed
    show ?thesis using b by (simp only: bij_betw_cong [OF e [rule_format]])
  qed
  then show ?thesis using g(1,3,4) unfolding nderivs_of_def by blast
qed

theorem slices_bijective_witness:
  "\<exists>m. generate_deriv_index_map zero_Tensor 1 xx_xx = Inr m
     \<and> how_many_derivs 4 1 = Inr 12
     \<and> bij_betw (\<lambda>i. m (1, 0, 0, i)) {0..<12} {0..<12}"
proof -
  have a: "xx_xx = xx_xx \<or> xx_xx = xs_xx" and b: "(1 :: int) \<le> 1" and c: "1 \<le> max_order xx_xx"
    by simp_all
  from slices_bijective [OF a b c, of zero_Tensor] obtain m sh nderivs where
    w: "generate_deriv_index_map zero_Tensor 1 xx_xx = Inr m" "shape_of xx_xx = Inr sh"
      "how_many_derivs (ncenters sh) 1 = Inr nderivs"
      "nderivs = int ((nparams_of xx_xx + nat 1 - 1) choose nat 1)"
      "\<forall>combo\<in>set (swap_combos sh).
          bij_betw (\<lambda>i. m (combo ! 0, combo ! 1, combo ! 2, i)) {0..<nderivs} {0..<nderivs}"
    by blast
  have n: "nderivs = 12" using w(4) by simp
  have "[1, 0, 0] \<in> set (swap_combos sh)" and nc: "ncenters sh = 4" using w(2) by auto
  with w(5) have "bij_betw (\<lambda>i. m ([1, 0, 0] ! 0, [1, 0, 0] ! 1, [1, 0, 0] ! 2, i))
      {0..<nderivs} {0..<nderivs}" by blast
  then have "bij_betw (\<lambda>i. m (1, 0, 0, i)) {0..<12} {0..<12}" by (simp add: n)
  then show ?thesis using w(1) w(3) n nc by auto
qed

text \<open>
  C3 as stated fails at order 8 of the four-center shape: the product
  \<open>12 * 13 * ... * 19\<close> of \<^verbatim>\<open>how_many_derivs\<close> exceeds \<^verbatim>\<open>INT_MAX\<close>, and no table is built.
\<close>

theorem slices_bijective_counterexample:
  "how_many_derivs 4 8 = Inl SignedOverflow
   \<and> generate_deriv_index_map zero_Tensor 8 xx_xx = Inl SignedOverflow"
  using how_many_derivs_overflow_4 generate_overflow [of xx_xx _ 8 zero_Tensor] by simp

section \<open>The identity slice\<close>

lemma permute_index_off: "permute_index sh 0 0 0 idx = Inr idx"
  by (simp add: permute_index_def)

lemma permuted_indices_off_acc:
  "for_each t (\<lambda>idx acc. case permute_index sh 0 0 0 idx of
                    Inl e \<Rightarrow> Inl e | Inr idx' \<Rightarrow> Inr (acc @ [idx'])) acc = Inr (acc @ t)"
  by (induction t arbitrary: acc) (simp_all add: permute_index_off)

lemma permuted_indices_off: "permuted_indices sh 0 0 0 t = Inr t"
  unfolding permuted_indices_def by (simp add: permuted_indices_off_acc)

lemma entry_identity:
  assumes "sorted_wrt (<) L" "\<forall>t\<in>set L. sorted t" "entry sh L 0 0 0 i = Inr v"
  shows "v = i"
proof -
  from assms(3) have r: "0 \<le> i" "i < int (length L)"
    by (auto simp: entry_def at_def split: if_splits)
  then have n: "nat i < length L" by simp
  then have "sorted (L ! nat i)" using assms(2) by simp
  then have "sort (L ! nat i) = L ! nat i" by (rule sorted_sort_id)
  then have "entry sh L 0 0 0 i = Inr (new_idx L (L ! nat i))"
    using r by (simp add: entry_def at_Inr permuted_indices_off)
  also have "new_idx L (L ! nat i) = i" using new_idx_nth [OF assms(1) n] r(1) by simp
  finally show ?thesis using assms(3) by simp
qed

lemma for_each_written:
  assumes "for_each cs body m0 = Inr m" and "distinct cs"
    and "\<And>c m1 m2. c \<in> set cs \<Longrightarrow> body c m1 = Inr m2 \<Longrightarrow>
           m2 (key c) = val c \<and> (\<forall>k. k \<noteq> key c \<longrightarrow> m2 k = m1 k)"
    and "inj_on key (set cs)"
  shows "\<forall>c\<in>set cs. m (key c) = val c"
  using assms
proof (induction cs arbitrary: m0)
  case Nil
  then show ?case by simp
next
  case (Cons c cs)
  from Cons.prems(1) obtain m1 where m1: "body c m0 = Inr m1" "for_each cs body m1 = Inr m"
    by (cases "body c m0") auto
  have w: "m1 (key c) = val c" using Cons.prems(3) [of c m0 m1] m1(1) by simp
  have step: "mb (key c') = val c' \<and> (\<forall>k. k \<noteq> key c' \<longrightarrow> mb k = ma k)"
    if "c' \<in> set cs" "body c' ma = Inr mb" for c' ma mb
  proof (rule Cons.prems(3))
    show "c' \<in> set (c # cs)" using that(1) by simp
    show "body c' ma = Inr mb" by (rule that(2))
  qed
  have d: "distinct cs" and inj: "inj_on key (set cs)"
    using Cons.prems(2,4) by (simp_all add: inj_on_def)
  have ih: "\<forall>c'\<in>set cs. m (key c') = val c'"
    using m1(2) d step inj by (rule Cons.IH)
  have fr: "\<forall>k. k \<notin> (\<Union>c'\<in>set cs. {key c'}) \<longrightarrow> m k = m1 k"
  proof (rule for_each_frame_only [OF m1(2)])
    fix c' ma mb assume "c' \<in> set cs" "body c' ma = Inr mb"
    then show "\<forall>k. k \<notin> {key c'} \<longrightarrow> mb k = ma k" using step [of c' ma mb] by simp
  qed
  have "key c \<notin> (\<Union>c'\<in>set cs. {key c'})"
  proof
    assume "key c \<in> (\<Union>c'\<in>set cs. {key c'})"
    then obtain c' where c': "c' \<in> set cs" "key c = key c'" by auto
    then have "c = c'" using Cons.prems(4) by (auto simp: inj_on_def)
    then show False using c'(1) Cons.prems(2) by simp
  qed
  then have "m (key c) = m1 (key c)" by (rule fr [rule_format])
  then show ?case using w ih by simp
qed

lemma fill_combo_identity:
  assumes "sorted_wrt (<) L" "\<forall>t\<in>set L. sorted t"
    and "fill_combo sh L n [0, 0, 0] m1 = Inr m2"
  shows "\<forall>i. 0 \<le> i \<and> i < n \<longrightarrow> m2 (0, 0, 0, i) = i"
proof -
  let ?body = "\<lambda>i m. case entry sh L 0 0 0 i of Inl e \<Rightarrow> Inl e
                      | Inr v \<Rightarrow> Inr (m((0, 0, 0, i) := v))"
  have r: "(at [0, 0, 0 :: int] 0, at [0, 0, 0 :: int] 1, at [0, 0, 0 :: int] 2)
      = (Inr 0, Inr 0, Inr 0)" by (simp add: at_def)
  have f: "for_each [0..n - 1] ?body m1 = Inr m2"
    using assms(3) by (simp only: fill_combo_def r prod.case sum.case)
  have "\<forall>i\<in>set [0..n - 1]. m2 (0, 0, 0, i) = i"
  proof (rule for_each_written [OF f])
    show "distinct [0..n - 1]" by simp
    show "inj_on (\<lambda>i. (0 :: int, 0 :: int, 0 :: int, i)) (set [0..n - 1])" by (simp add: inj_on_def)
    fix i :: int and ma mb :: tensor
    assume b: "?body i ma = Inr mb"
    then obtain v where v: "entry sh L 0 0 0 i = Inr v" by (cases "entry sh L 0 0 0 i") auto
    then have "v = i" using assms(1,2) by (intro entry_identity)
    then show "mb (0, 0, 0, i) = i \<and> (\<forall>k. k \<noteq> (0, 0, 0, i) \<longrightarrow> mb k = ma k)"
      using b v by auto
  qed
  then show ?thesis by simp
qed

lemma build_identity:
  assumes "braket = xx_xx \<or> braket = xs_xx" and "shape_of braket = Inr sh"
    and "sorted_wrt (<) L" "\<forall>t\<in>set L. sorted t"
    and "for_each (swap_combos sh) (fill_combo sh L n) m0 = Inr m"
  shows "\<forall>i. 0 \<le> i \<and> i < n \<longrightarrow> m (0, 0, 0, i) = i"
proof -
  obtain rest where c: "swap_combos sh = [0, 0, 0] # rest" "distinct ([0, 0, 0] # rest)"
    "\<forall>combo\<in>set rest. length combo = 3"
    using assms(1,2) by auto
  from assms(5) obtain m1 where m1: "fill_combo sh L n [0, 0, 0] m0 = Inr m1"
    "for_each rest (fill_combo sh L n) m1 = Inr m"
    unfolding c(1) by (cases "fill_combo sh L n [0, 0, 0] m0") auto
  have id1: "\<forall>i. 0 \<le> i \<and> i < n \<longrightarrow> m1 (0, 0, 0, i) = i"
    using assms(3,4) m1(1) by (rule fill_combo_identity)
  have fr: "\<forall>k. k \<notin> (\<Union>combo\<in>set rest. slice_keys n combo) \<longrightarrow> m k = m1 k"
    by (rule for_each_frame_only [OF m1(2)]) (rule fill_combo_frame)
  show ?thesis
  proof (intro allI impI)
    fix i assume i: "0 \<le> i \<and> i < n"
    have "(0, 0, 0, i) \<notin> (\<Union>combo\<in>set rest. slice_keys n combo)"
    proof
      assume "(0, 0, 0, i) \<in> (\<Union>combo\<in>set rest. slice_keys n combo)"
      then obtain combo where combo: "combo \<in> set rest" "(0, 0, 0, i) \<in> slice_keys n combo"
        by auto
      have "combo \<noteq> [0, 0, 0]" using combo(1) c(2) by auto
      moreover have "length combo = 3" using combo(1) c(3) by simp
      ultimately have "slice_keys n [0, 0, 0] \<inter> slice_keys n combo = {}"
        by (intro slice_keys_disjoint) simp_all
      moreover have "(0, 0, 0, i) \<in> slice_keys n [0, 0, 0]" using i by (simp add: slice_keys_def)
      ultimately show False using combo(2) by blast
    qed
    then have "m (0, 0, 0, i) = m1 (0, 0, 0, i)" by (rule fr [rule_format])
    then show "m (0, 0, 0, i) = i" using id1 i by simp
  qed
qed

lemma lookup_sorted_tuples:
  assumes "generate_multi_index_lookup nparams d = Some L" "0 \<le> nparams" "0 \<le> d"
  shows "sorted_wrt (<) L \<and> (\<forall>t\<in>set L. sorted t)"
  using lookup_properties [OF assms(2,3)] assms(1) by auto

lemma generate_unfold:
  assumes "generate_deriv_index_map new_Tensor d braket = Inr m"
  shows "\<exists>sh nderivs L. shape_of braket = Inr sh \<and> how_many_derivs (ncenters sh) d = Inr nderivs
     \<and> generate_multi_index_lookup (ncenters sh * 3) d = Some L
     \<and> for_each (swap_combos sh) (fill_combo sh L nderivs) (new_Tensor [2, 2, 2, nderivs]) = Inr m"
proof -
  obtain sh where sh: "shape_of braket = Inr sh"
    using assms by (cases "shape_of braket") (simp_all add: generate_deriv_index_map_def)
  obtain nderivs where n: "how_many_derivs (ncenters sh) d = Inr nderivs"
    using assms sh by (cases "how_many_derivs (ncenters sh) d")
      (simp_all add: generate_deriv_index_map_def)
  obtain L where L: "generate_multi_index_lookup (ncenters sh * 3) d = Some L"
    using assms sh n by (cases "generate_multi_index_lookup (ncenters sh * 3) d")
      (simp_all add: generate_deriv_index_map_def)
  have "for_each (swap_combos sh) (fill_combo sh L nderivs) (new_Tensor [2, 2, 2, nderivs]) = Inr m"
    using assms sh n L by (simp add: generate_deriv_index_map_def)
  then show ?thesis using sh n L by blast
qed

lemma identity_slice_in_range:
  assumes "braket = xx_xx \<or> braket = xs_xx"
    and "1 \<le> deriv_order" and "deriv_order \<le> max_order braket"
  shows "\<exists>m sh nderivs. generate_deriv_index_map new_Tensor deriv_order braket = Inr m
     \<and> shape_of braket = Inr sh
     \<and> how_many_derivs (ncenters sh) deriv_order = Inr nderivs
     \<and> nderivs = int ((nparams_of braket + nat deriv_order - 1) choose nat deriv_order)
     \<and> (\<forall>i. 0 \<le> i \<and> i < nderivs \<longrightarrow> m (0, 0, 0, i) = i)"
proof -
  from generate_supported [OF assms, of new_Tensor] obtain m L sh where
    g: "shape_of braket = Inr sh"
      "generate_deriv_index_map new_Tensor deriv_order braket = Inr m"
      "how_many_derivs (ncenters sh) deriv_order = Inr (nderivs_of braket deriv_order)"
      "int (length L) = nderivs_of braket deriv_order"
      "sorted_wrt (<) L" "set L = tuples (nparams_of braket) (nat deriv_order)"
      "\<forall>combo\<in>set (swap_combos sh).
           \<forall>k\<in>slice_keys (nderivs_of braket deriv_order) combo. m k = slice_val sh L k"
    by blast
  let ?n = "nderivs_of braket deriv_order"
  have c: "[0, 0, 0] \<in> set (swap_combos sh)" using assms(1) g(1) by auto
  have "m (0, 0, 0, i) = i" if i: "0 \<le> i" "i < ?n" for i
  proof -
    have "m (0, 0, 0, i) = slice_val sh L (0, 0, 0, i)"
      using g(7) [rule_format, OF c combo_keys [OF i, of "[0, 0, 0]"]] by simp
    moreover have "sorted (L ! nat i)"
      using nth_in_tuples [OF g(6) i(1)] i(2) g(4) by (simp add: tuples_def)
    moreover have "nat i < length L" using i g(4) by simp
    ultimately show ?thesis
      using i(1) by (simp add: slice_val_def canonical_identity lower_bound_nth [OF g(5)])
  qed
  then show ?thesis using g(1,2,3) unfolding nderivs_of_def by blast
qed

text \<open>
  C4 (as amended): for the shapes \<open>xx_xx\<close> and \<open>xs_xx\<close> and every derivative order from 1
  on, every table that \<^verbatim>\<open>generate_deriv_index_map\<close> builds satisfies \<open>map[0][0][0][i] = i\<close>
  for every \<open>i\<close> in \<open>[0, nderivs)\<close>; this holds for the loops of the build whatever count
  \<open>nderivs\<close> they are run with, so it does not depend on how the count was computed.  A
  table is built at every order from 1 to 7 (\<open>xx_xx\<close>) or 8 (\<open>xs_xx\<close>), where
  \<^verbatim>\<open>how_many_derivs\<close> stays within \<^verbatim>\<open>int\<close>.
\<close>

theorem identity_slice:
  assumes "braket = xx_xx \<or> braket = xs_xx" and "1 \<le> deriv_order"
  shows "(deriv_order \<le> max_order braket \<longrightarrow>
       (\<exists>m sh nderivs. generate_deriv_index_map new_Tensor deriv_order braket = Inr m
          \<and> shape_of braket = Inr sh
          \<and> how_many_derivs (ncenters sh) deriv_order = Inr nderivs
          \<and> nderivs = int ((nparams_of braket + nat deriv_order - 1) choose nat deriv_order)
          \<and> (\<forall>i. 0 \<le> i \<and> i < nderivs \<longrightarrow> m (0, 0, 0, i) = i)))
     \<and> (\<forall>m. generate_deriv_index_map new_Tensor deriv_order braket = Inr m \<longrightarrow>
          (\<exists>sh nderivs. shape_of braket = Inr sh
             \<and> how_many_derivs (ncenters sh) deriv_order = Inr nderivs
             \<and> (\<forall>i. 0 \<le> i \<and> i < nderivs \<longrightarrow> m (0, 0, 0, i) = i)))
     \<and> (\<forall>sh lookup nderivs m.
          shape_of braket = Inr sh
          \<and> generate_multi_index_lookup (ncenters sh * 3) deriv_order = Some lookup
          \<and> for_each (swap_combos sh) (fill_combo sh lookup nderivs)
                (new_Tensor [2, 2, 2, nderivs]) = Inr m
          \<longrightarrow> (\<forall>i. 0 \<le> i \<and> i < nderivs \<longrightarrow> m (0, 0, 0, i) = i))"
proof -
  have any: "\<forall>i. 0 \<le> i \<and> i < n \<longrightarrow> m (0, 0, 0, i) = i"
    if sh: "shape_of braket = Inr sh"
      and L: "generate_multi_index_lookup (ncenters sh * 3) deriv_order = Some L"
      and f: "for_each (swap_combos sh) (fill_combo sh L n) m0 = Inr m"
    for sh L n m0 m
  proof -
    have "0 \<le> ncenters sh * 3" using assms(1) sh by auto
    moreover have "0 \<le> deriv_order" using assms(2) by simp
    ultimately have "sorted_wrt (<) L \<and> (\<forall>t\<in>set L. sorted t)"
      using L by (intro lookup_sorted_tuples)
    then show ?thesis using build_identity [OF assms(1) sh _ _ f] by blast
  qed
  have 1: "\<exists>m sh nderivs. generate_deriv_index_map new_Tensor deriv_order braket = Inr m
          \<and> shape_of braket = Inr sh
          \<and> how_many_derivs (ncenters sh) deriv_order = Inr nderivs
          \<and> nderivs = int ((nparams_of braket + nat deriv_order - 1) choose nat deriv_order)
          \<and> (\<forall>i. 0 \<le> i \<and> i < nderivs \<longrightarrow> m (0, 0, 0, i) = i)"
    if "deriv_order \<le> max_order braket"
    using assms that by (rule identity_slice_in_range)
  have 2: "\<exists>sh nderivs. shape_of braket = Inr sh
             \<and> how_many_derivs (ncenters sh) deriv_order = Inr nderivs
             \<and> (\<forall>i. 0 \<le> i \<and> i < nderivs \<longrightarrow> m (0, 0, 0, i) = i)"
    if g: "generate_deriv_index_map new_Tensor deriv_order braket = Inr m" for m
  proof -
    from generate_unfold [OF g] obtain sh nderivs L where
      u: "shape_of braket = Inr sh" "how_many_derivs (ncenters sh) deriv_order = Inr nderivs"
        "generate_multi_index_lookup (ncenters sh * 3) deriv_order = Some L"
        "for_each (swap_combos sh) (fill_combo sh L nderivs) (new_Tensor [2, 2, 2, nderivs]) = Inr m"
      by blast
    from any [OF u(1,3,4)] show ?thesis using u(1,2) by blast
  qed
  show ?thesis
  proof (intro conjI allI impI)
    assume "deriv_order \<le> max_order braket"
    then show "\<exists>m sh nderivs. generate_deriv_index_map new_Tensor deriv_order braket = Inr m
          \<and> shape_of braket = Inr sh
          \<and> how_many_derivs (ncenters sh) deriv_order = Inr nderivs
          \<and> nderivs = int ((nparams_of braket + nat deriv_order - 1) choose nat deriv_order)
          \<and> (\<forall>i. 0 \<le> i \<and> i < nderivs \<longrightarrow> m (0, 0, 0, i) = i)" by (rule 1)
  next
    fix m assume "generate_deriv_index_map new_Tensor deriv_order braket = Inr m"
    then show "\<exists>sh nderivs. shape_of braket = Inr sh
             \<and> how_many_derivs (ncenters sh) deriv_order = Inr nderivs
             \<and> (\<forall>i. 0 \<le> i \<and> i < nderivs \<longrightarrow> m (0, 0, 0, i) = i)" by (rule 2)
  next
    fix sh lookup nderivs m i
    assume a: "shape_of braket = Inr sh
          \<and> generate_multi_index_lookup (ncenters sh * 3) deriv_order = Some lookup
          \<and> for_each (swap_combos sh) (fill_combo sh lookup nderivs)
                (new_Tensor [2, 2, 2, nderivs]) = Inr m"
      and i: "0 \<le> i \<and> i < nderivs"
    from a have a1: "shape_of braket = Inr sh"
      and a2: "generate_multi_index_lookup (ncenters sh * 3) deriv_order = Some lookup"
      and a3: "for_each (swap_combos sh) (fill_combo sh lookup nderivs)
                (new_Tensor [2, 2, 2, nderivs]) = Inr m"
      by blast+
    have "\<forall>i. 0 \<le> i \<and> i < nderivs \<longrightarrow> m (0, 0, 0, i) = i"
      using a1 a2 a3 by (rule any)
    then show "m (0, 0, 0, i) = i" using i by blast
  qed
qed

theorem identity_slice_witness:
  "\<exists>m lookup. generate_deriv_index_map zero_Tensor 2 xs_xx = Inr m
     \<and> how_many_derivs 3 2 = Inr 45
     \<and> generate_multi_index_lookup 9 2 = Some lookup
     \<and> for_each [[0, 0, 0], [0, 0, 1]]
          (fill_combo
             \<lparr>swap_braket_perm = [0, 1, 2, 3, 4, 5, 6, 7, 8],
              swap_bra_perm = [0, 1, 2, 3, 4, 5, 6, 7, 8],
              swap_ket_perm = [0, 1, 2, 6, 7, 8, 3, 4, 5],
              swap_combos = [[0, 0, 0], [0, 0, 1]], ncenters = 3\<rparr> lookup 45)
          (zero_Tensor [2, 2, 2, 45]) = Inr m
     \<and> m (0, 0, 0, 0) = 0 \<and> m (0, 0, 0, 7) = 7 \<and> m (0, 0, 0, 44) = 44"
proof -
  let ?sh = "\<lparr>swap_braket_perm = [0, 1, 2, 3, 4, 5, 6, 7, 8],
              swap_bra_perm = [0, 1, 2, 3, 4, 5, 6, 7, 8],
              swap_ket_perm = [0, 1, 2, 6, 7, 8, 3, 4, 5],
              swap_combos = [[0, 0, 0], [0, 0, 1 :: int]], ncenters = 3\<rparr>"
  have a: "xs_xx = xx_xx \<or> xs_xx = xs_xx" and b: "(1 :: int) \<le> 2" and c: "2 \<le> max_order xs_xx"
    by simp_all
  note t = identity_slice [OF a b, of zero_Tensor]
  from t [THEN conjunct1, rule_format, OF c] obtain m sh nderivs where
    w: "generate_deriv_index_map zero_Tensor 2 xs_xx = Inr m" "shape_of xs_xx = Inr sh"
      "how_many_derivs (ncenters sh) 2 = Inr nderivs"
      "nderivs = int ((nparams_of xs_xx + nat 2 - 1) choose nat 2)"
    by (elim exE conjE)
  have n: "nderivs = 45"
    using w(4) by (simp add: binomial_code fold_atLeastAtMost_nat.simps fact_numeral)
  have sh: "sh = ?sh" using w(2) by simp
  have h: "how_many_derivs 3 2 = Inr 45" using w(3) n sh by simp
  from generate_unfold [OF w(1)] obtain sh' n' L where
    u: "shape_of xs_xx = Inr sh'" "how_many_derivs (ncenters sh') 2 = Inr n'"
      "generate_multi_index_lookup (ncenters sh' * 3) 2 = Some L"
      "for_each (swap_combos sh') (fill_combo sh' L n') (zero_Tensor [2, 2, 2, n']) = Inr m"
    by (elim exE conjE)
  have sh': "sh' = ?sh" using u(1) by simp
  have n': "n' = 45" using u(2) h sh' by simp
  have L: "generate_multi_index_lookup 9 2 = Some L" using u(3) sh' by simp
  have f: "for_each [[0, 0, 0], [0, 0, 1]] (fill_combo ?sh L 45) (zero_Tensor [2, 2, 2, 45]) = Inr m"
    using u(4) unfolding sh' n' by simp
  have s: "shape_of xs_xx = Inr ?sh" by simp
  have L': "generate_multi_index_lookup (ncenters ?sh * 3) 2 = Some L" using L by simp
  have f': "for_each (swap_combos ?sh) (fill_combo ?sh L 45) (zero_Tensor [2, 2, 2, 45]) = Inr m"
    using f by simp
  from t [THEN conjunct2, THEN conjunct2, rule_format, of ?sh L 45 m] s L' f'
  have id: "\<And>i. 0 \<le> i \<and> i < 45 \<Longrightarrow> m (0, 0, 0, i) = i" by blast
  have "m (0, 0, 0, 0) = 0" "m (0, 0, 0, 7) = 7" "m (0, 0, 0, 44) = 44"
    by (rule id, simp)+
  then show ?thesis using w(1) h L f by (intro exI [of _ m] exI [of _ L]) simp
qed

lemma how_many_derivs_loop_4_8_7:
  "how_many_derivs_loop 4 8 7 160392960 5040 = Inl SignedOverflow"
  by (simp add: how_many_derivs_loop.simps int_ok_def INT_MIN_def INT_MAX_def)

lemma how_many_derivs_loop_4_8_start:
  "how_many_derivs_loop 4 8 0 1 1 = how_many_derivs_loop 4 8 7 160392960 5040"
  by (simp add: how_many_derivs_loop.simps [of 4 8 0] how_many_derivs_loop.simps [of 4 8 1]
      how_many_derivs_loop.simps [of 4 8 2] how_many_derivs_loop.simps [of 4 8 3]
      how_many_derivs_loop.simps [of 4 8 4] how_many_derivs_loop.simps [of 4 8 5]
      how_many_derivs_loop.simps [of 4 8 6] int_ok_def INT_MIN_def INT_MAX_def)

text \<open>
  C4 as stated fails at order 8 of the four-center shape, where it promises a table: after
  seven rounds \<^verbatim>\<open>val\<close> is \<open>160392960\<close>, the eighth product \<open>160392960 * 19\<close> exceeds
  \<^verbatim>\<open>INT_MAX\<close>, and no table is built.
\<close>

theorem identity_slice_counterexample:
  "how_many_derivs_loop 4 8 0 1 1 = how_many_derivs_loop 4 8 7 160392960 5040
   \<and> \<not> int_ok (160392960 * (3 * 4 + 7))
   \<and> how_many_derivs_loop 4 8 7 160392960 5040 = Inl SignedOverflow
   \<and> generate_deriv_index_map zero_Tensor 8 xx_xx = Inl SignedOverflow"
proof -
  have "\<not> int_ok (160392960 * (3 * 4 + 7))" by (simp add: int_ok_def INT_MIN_def INT_MAX_def)
  moreover have "generate_deriv_index_map zero_Tensor 8 xx_xx = Inl SignedOverflow"
    using how_many_derivs_overflow_4 generate_overflow [of xx_xx _ 8 zero_Tensor] by simp
  ultimately show ?thesis
    using how_many_derivs_loop_4_8_start how_many_derivs_loop_4_8_7 by blast
qed

section \<open>The ket-swap slice\<close>

text \<open>
  C6 (as amended): for the shapes \<open>xx_xx\<close> and \<open>xs_xx\<close> and every derivative order from 1
  to the largest one at which \<^verbatim>\<open>how_many_derivs\<close> does not overflow, the ket-swap
  permutation of the shape is its own inverse, and applying \<open>i \<mapsto> map[0][0][1][i]\<close> twice
  returns every index of \<open>[0, nderivs)\<close> to itself.
\<close>

theorem ket_swap_involution:
  assumes "braket = xx_xx \<or> braket = xs_xx"
    and "1 \<le> deriv_order" and "deriv_order \<le> max_order braket"
  shows "\<exists>m sh nderivs. generate_deriv_index_map new_Tensor deriv_order braket = Inr m
     \<and> shape_of braket = Inr sh
     \<and> how_many_derivs (ncenters sh) deriv_order = Inr nderivs
     \<and> nderivs = int ((nparams_of braket + nat deriv_order - 1) choose nat deriv_order)
     \<and> (\<forall>x. 0 \<le> x \<and> x < ncenters sh * 3
            \<longrightarrow> swap_ket_perm sh ! nat (swap_ket_perm sh ! nat x) = x)
     \<and> (\<forall>i. 0 \<le> i \<and> i < nderivs
            \<longrightarrow> 0 \<le> m (0, 0, 1, i) \<and> m (0, 0, 1, i) < nderivs
                \<and> m (0, 0, 1, m (0, 0, 1, i)) = i)"
proof -
  from generate_supported [OF assms, of new_Tensor] obtain m L sh where
    g: "shape_of braket = Inr sh" "valid_shape (nparams_of braket) sh"
      "generate_deriv_index_map new_Tensor deriv_order braket = Inr m"
      "how_many_derivs (ncenters sh) deriv_order = Inr (nderivs_of braket deriv_order)"
      "int (length L) = nderivs_of braket deriv_order"
      "sorted_wrt (<) L" "set L = tuples (nparams_of braket) (nat deriv_order)"
      "\<forall>combo\<in>set (swap_combos sh).
           \<forall>k\<in>slice_keys (nderivs_of braket deriv_order) combo. m k = slice_val sh L k"
    by blast
  let ?n = "nderivs_of braket deriv_order"
  let ?N = "nparams_of braket"
  have c: "[0, 0, 1] \<in> set (swap_combos sh)" using assms(1) g(1) by auto
  have np: "ncenters sh * 3 = int ?N" using assms(1) g(1) by auto
  note inv = ket_swap_self_inverse [OF assms(1) g(1)]
  have perm: "swap_ket_perm sh ! nat (swap_ket_perm sh ! nat x) = x"
    if "0 \<le> x" "x < ncenters sh * 3" for x
    using inv [rule_format, of x] that np by (simp add: permuted_def apply_perm_def)
  have m_eq: "m (0, 0, 1, i) = slice_val sh L (0, 0, 1, i)" if "0 \<le> i" "i < ?n" for i
    using g(8) [rule_format, OF c combo_keys [OF that, of "[0, 0, 1]"]] by simp
  have "0 \<le> m (0, 0, 1, i) \<and> m (0, 0, 1, i) < ?n \<and> m (0, 0, 1, m (0, 0, 1, i)) = i"
    if i: "0 \<le> i" "i < ?n" for i
  proof -
    let ?j = "slice_val sh L (0, 0, 1, i)"
    have i': "i < int (length L)" using i(2) g(5) by simp
    note p = slice_val_position [OF g(2,6,7) i(1) i', of 0 0 1]
    have j: "0 \<le> ?j" "?j < ?n" using p(1,2) g(5) by simp_all
    have j': "?j < int (length L)" using p(2) .
    have "slice_val sh L (0, 0, 1, ?j)
        = int (lower_bound L (canonical sh 0 0 1 (canonical sh 0 0 1 (L ! nat i))))"
      using p(3) by (simp add: slice_val_def)
    also have "canonical sh 0 0 1 (canonical sh 0 0 1 (L ! nat i)) = L ! nat i"
      using inv g(2) nth_in_tuples [OF g(7) i(1) i'] by (rule canonical_involution)
    also have "int (lower_bound L (L ! nat i)) = i"
      using lower_bound_nth [OF g(6), of "nat i"] i(1) i' by simp
    finally have "slice_val sh L (0, 0, 1, ?j) = i" .
    then show ?thesis using m_eq [OF i] m_eq [OF j] j by simp
  qed
  then show ?thesis using g(1,3,4) perm unfolding nderivs_of_def by blast
qed

theorem ket_swap_involution_witness:
  "\<exists>m. generate_deriv_index_map zero_Tensor 1 xs_xx = Inr m
     \<and> how_many_derivs 3 1 = Inr 9
     \<and> m (0, 0, 1, m (0, 0, 1, 4)) = 4
     \<and> [0, 1, 2, 6, 7, 8, 3, 4, 5] ! nat ([0, 1, 2, 6, 7, 8, 3, 4, 5 :: int] ! nat 4) = (4 :: int)"
proof -
  have a: "xs_xx = xx_xx \<or> xs_xx = xs_xx" and b: "(1 :: int) \<le> 1" and c: "1 \<le> max_order xs_xx"
    by simp_all
  from ket_swap_involution [OF a b c, of zero_Tensor] obtain m sh nderivs where
    w: "generate_deriv_index_map zero_Tensor 1 xs_xx = Inr m" "shape_of xs_xx = Inr sh"
      "how_many_derivs (ncenters sh) 1 = Inr nderivs"
      "nderivs = int ((nparams_of xs_xx + nat 1 - 1) choose nat 1)"
      "\<forall>x. 0 \<le> x \<and> x < ncenters sh * 3
            \<longrightarrow> swap_ket_perm sh ! nat (swap_ket_perm sh ! nat x) = x"
      "\<forall>i. 0 \<le> i \<and> i < nderivs
            \<longrightarrow> 0 \<le> m (0, 0, 1, i) \<and> m (0, 0, 1, i) < nderivs
                \<and> m (0, 0, 1, m (0, 0, 1, i)) = i"
    by blast
  have n: "nderivs = 9" using w(4) by simp
  have nc: "ncenters sh = 3" and k: "swap_ket_perm sh = [0, 1, 2, 6, 7, 8, 3, 4, 5]"
    using w(2) by auto
  have "m (0, 0, 1, m (0, 0, 1, 4)) = 4" using w(6) n by simp
  moreover have "swap_ket_perm sh ! nat (swap_ket_perm sh ! nat 4) = 4"
    using w(5) [rule_format, of 4] nc by simp
  ultimately show ?thesis using w(1) w(3) n nc unfolding k by auto
qed

text \<open>
  C6 as stated fails at order 9 of the four-center shape, where the product of
  \<^verbatim>\<open>how_many_derivs\<close> overflows \<^verbatim>\<open>int\<close>: the behaviour is undefined, and the count
  \<open>C(20, 9) = 167960\<close> that the involution needs is not the one the build uses.
\<close>

theorem ket_swap_involution_counterexample:
  "how_many_derivs 4 9 = Inl SignedOverflow
   \<and> generate_deriv_index_map zero_Tensor 9 xx_xx = Inl SignedOverflow"
  using how_many_derivs_overflow_4_9 generate_overflow [of xx_xx _ 9 zero_Tensor] by simp

section \<open>The slices the three-center shape leaves alone\<close>

lemma generate_frame:
  assumes "generate_deriv_index_map new_Tensor d braket = Inr m"
  shows "\<exists>sh nderivs. shape_of braket = Inr sh \<and> how_many_derivs (ncenters sh) d = Inr nderivs
     \<and> (\<forall>k. k \<notin> (\<Union>combo\<in>set (swap_combos sh). slice_keys nderivs combo)
           \<longrightarrow> m k = new_Tensor [2, 2, 2, nderivs] k)"
proof -
  obtain sh where sh: "shape_of braket = Inr sh"
    using assms by (cases "shape_of braket") (simp_all add: generate_deriv_index_map_def)
  obtain nderivs where n: "how_many_derivs (ncenters sh) d = Inr nderivs"
    using assms sh by (cases "how_many_derivs (ncenters sh) d")
      (simp_all add: generate_deriv_index_map_def)
  obtain L where L: "generate_multi_index_lookup (ncenters sh * 3) d = Some L"
    using assms sh n by (cases "generate_multi_index_lookup (ncenters sh * 3) d")
      (simp_all add: generate_deriv_index_map_def)
  have f: "for_each (swap_combos sh) (fill_combo sh L nderivs) (new_Tensor [2, 2, 2, nderivs]) = Inr m"
    using assms sh n L by (simp add: generate_deriv_index_map_def)
  have "\<forall>k. k \<notin> (\<Union>combo\<in>set (swap_combos sh). slice_keys nderivs combo)
           \<longrightarrow> m k = new_Tensor [2, 2, 2, nderivs] k"
    by (rule for_each_frame_only [OF f]) (rule fill_combo_frame)
  then show ?thesis using sh n by blast
qed

lemma xs_xx_untouched:
  assumes "a = 1 \<or> b = 1"
  shows "(a, b, c, i) \<notin> slice_keys n [0, 0, 0] \<union> slice_keys n [0, 0, 1]"
  using assms by (auto simp: slice_keys_def)

lemma nderivs_3_ge:
  assumes "1 \<le> d" "d \<le> 8"
  shows "2 \<le> (9 + nat d - 1) choose nat d"
proof -
  have "d = 1 \<or> d = 2 \<or> d = 3 \<or> d = 4 \<or> d = 5 \<or> d = 6 \<or> d = 7 \<or> d = 8"
    using assms by arith
  then show ?thesis
    by (elim disjE) (simp_all add: binomial_code fold_atLeastAtMost_nat.simps fact_numeral)
qed

text \<open>
  C9: for the three-center shape \<open>xs_xx\<close>, at every derivative order, a table that
  \<^verbatim>\<open>generate_deriv_index_map\<close> returns differs from the newly constructed tensor only
  inside the slices \<open>(0,0,0)\<close> and \<open>(0,0,1)\<close>: every entry with \<open>swap_braket = 1\<close> or
  \<open>swap_bra = 1\<close> holds its initial value.  The same is true of the loops of the build for
  any count and any starting table.  At the orders 1 to 8, where a table is returned, a
  tensor that starts as zeros leaves those slices constant, so they are not permutations
  of \<open>[0, nderivs)\<close>.
\<close>

theorem three_center_untouched_slices:
  "(generate_deriv_index_map new_Tensor deriv_order xs_xx = Inr m \<longrightarrow>
      (\<exists>nderivs. how_many_derivs 3 deriv_order = Inr nderivs
         \<and> (\<forall>k. k \<notin> slice_keys nderivs [0, 0, 0] \<union> slice_keys nderivs [0, 0, 1]
               \<longrightarrow> m k = new_Tensor [2, 2, 2, nderivs] k)
         \<and> (\<forall>a b c i. a = 1 \<or> b = 1
               \<longrightarrow> m (a, b, c, i) = new_Tensor [2, 2, 2, nderivs] (a, b, c, i))))
   \<and> (1 \<le> deriv_order \<and> deriv_order \<le> 8 \<longrightarrow>
      (\<exists>m0 nderivs. generate_deriv_index_map zero_Tensor deriv_order xs_xx = Inr m0
         \<and> how_many_derivs 3 deriv_order = Inr nderivs \<and> 2 \<le> nderivs
         \<and> (\<forall>a b c i. a = 1 \<or> b = 1 \<longrightarrow> m0 (a, b, c, i) = 0)
         \<and> (\<forall>a b c. a = 1 \<or> b = 1
               \<longrightarrow> \<not> bij_betw (\<lambda>i. m0 (a, b, c, i)) {0..<nderivs} {0..<nderivs})))
   \<and> (\<forall>sh lookup nderivs m1 m2.
        shape_of xs_xx = Inr sh
        \<and> for_each (swap_combos sh) (fill_combo sh lookup nderivs) m1 = Inr m2
        \<longrightarrow> (\<forall>a b c i. a = 1 \<or> b = 1 \<longrightarrow> m2 (a, b, c, i) = m1 (a, b, c, i)))"
proof (intro conjI impI allI)
  assume g: "generate_deriv_index_map new_Tensor deriv_order xs_xx = Inr m"
  from generate_frame [OF g] obtain sh nderivs where
    f: "shape_of xs_xx = Inr sh" "how_many_derivs (ncenters sh) deriv_order = Inr nderivs"
      "\<forall>k. k \<notin> (\<Union>combo\<in>set (swap_combos sh). slice_keys nderivs combo)
           \<longrightarrow> m k = new_Tensor [2, 2, 2, nderivs] k"
    by blast
  have sh: "ncenters sh = 3" "swap_combos sh = [[0, 0, 0], [0, 0, 1]]" using f(1) by auto
  have 1: "how_many_derivs 3 deriv_order = Inr nderivs" using f(2) sh(1) by simp
  have 2: "\<forall>k. k \<notin> slice_keys nderivs [0, 0, 0] \<union> slice_keys nderivs [0, 0, 1]
               \<longrightarrow> m k = new_Tensor [2, 2, 2, nderivs] k"
    using f(3) unfolding sh(2) by simp
  have 3: "\<forall>a b c i. a = 1 \<or> b = 1
               \<longrightarrow> m (a, b, c, i) = new_Tensor [2, 2, 2, nderivs] (a, b, c, i)"
    using 2 xs_xx_untouched by blast
  show "\<exists>nderivs. how_many_derivs 3 deriv_order = Inr nderivs
         \<and> (\<forall>k. k \<notin> slice_keys nderivs [0, 0, 0] \<union> slice_keys nderivs [0, 0, 1]
               \<longrightarrow> m k = new_Tensor [2, 2, 2, nderivs] k)
         \<and> (\<forall>a b c i. a = 1 \<or> b = 1
               \<longrightarrow> m (a, b, c, i) = new_Tensor [2, 2, 2, nderivs] (a, b, c, i))"
    by (intro exI [of _ nderivs] conjI) (fact 1 2 3)+
next
  assume d: "1 \<le> deriv_order \<and> deriv_order \<le> 8"
  then have d': "1 \<le> deriv_order" "deriv_order \<le> max_order xs_xx" by simp_all
  have s: "xs_xx = xx_xx \<or> xs_xx = xs_xx" by simp
  from generate_supported [OF s d', of zero_Tensor] obtain m0 where
    g: "generate_deriv_index_map zero_Tensor deriv_order xs_xx = Inr m0" by blast
  from generate_frame [OF g] obtain sh nderivs where
    f: "shape_of xs_xx = Inr sh" "how_many_derivs (ncenters sh) deriv_order = Inr nderivs"
      "\<forall>k. k \<notin> (\<Union>combo\<in>set (swap_combos sh). slice_keys nderivs combo)
           \<longrightarrow> m0 k = zero_Tensor [2, 2, 2, nderivs] k"
    by blast
  have sh: "ncenters sh = 3" "swap_combos sh = [[0, 0, 0], [0, 0, 1]]" using f(1) by auto
  have 1: "how_many_derivs 3 deriv_order = Inr nderivs" using f(2) sh(1) by simp
  have n: "nderivs = int ((9 + nat deriv_order - 1) choose nat deriv_order)"
    using 1 how_many_derivs_3 [of deriv_order] d by simp
  have 2: "2 \<le> nderivs" using nderivs_3_ge [of deriv_order] d unfolding n by simp
  have 3: "m0 (a, b, c, i) = 0" if "a = 1 \<or> b = 1" for a b c i
  proof -
    have "(a, b, c, i) \<notin> (\<Union>combo\<in>set (swap_combos sh). slice_keys nderivs combo)"
      using xs_xx_untouched [OF that, of c i nderivs] unfolding sh(2) by simp
    then have "m0 (a, b, c, i) = zero_Tensor [2, 2, 2, nderivs] (a, b, c, i)"
      by (rule f(3) [rule_format])
    then show ?thesis by (simp add: zero_Tensor_def)
  qed
  have 4: "\<not> bij_betw (\<lambda>i. m0 (a, b, c, i)) {0..<nderivs} {0..<nderivs}" if ab: "a = 1 \<or> b = 1" for a b c
  proof
    assume "bij_betw (\<lambda>i. m0 (a, b, c, i)) {0..<nderivs} {0..<nderivs}"
    then have "inj_on (\<lambda>i. m0 (a, b, c, i)) {0..<nderivs}" by (rule bij_betw_imp_inj_on)
    moreover have "m0 (a, b, c, 0) = m0 (a, b, c, 1)" using 3 [OF ab] by simp
    moreover have "(0 :: int) \<in> {0..<nderivs}" "(1 :: int) \<in> {0..<nderivs}" using 2 by simp_all
    ultimately have "(0 :: int) = 1" by (rule inj_onD)
    then show False by simp
  qed
  show "\<exists>m0 nderivs. generate_deriv_index_map zero_Tensor deriv_order xs_xx = Inr m0
         \<and> how_many_derivs 3 deriv_order = Inr nderivs \<and> 2 \<le> nderivs
         \<and> (\<forall>a b c i. a = 1 \<or> b = 1 \<longrightarrow> m0 (a, b, c, i) = 0)
         \<and> (\<forall>a b c. a = 1 \<or> b = 1
               \<longrightarrow> \<not> bij_betw (\<lambda>i. m0 (a, b, c, i)) {0..<nderivs} {0..<nderivs})"
  proof (intro exI [of _ m0] exI [of _ nderivs] conjI allI impI)
    show "generate_deriv_index_map zero_Tensor deriv_order xs_xx = Inr m0" by (rule g)
    show "how_many_derivs 3 deriv_order = Inr nderivs" by (rule 1)
    show "2 \<le> nderivs" by (rule 2)
    show "m0 (a, b, c, i) = 0" if "a = 1 \<or> b = 1" for a b c i using that by (rule 3)
    show "\<not> bij_betw (\<lambda>i. m0 (a, b, c, i)) {0..<nderivs} {0..<nderivs}"
      if "a = 1 \<or> b = 1" for a b c using that by (rule 4)
  qed
next
  fix sh lookup nderivs m1 m2 and a b c i :: int
  assume h: "shape_of xs_xx = Inr sh
        \<and> for_each (swap_combos sh) (fill_combo sh lookup nderivs) m1 = Inr m2"
    and ab: "a = 1 \<or> b = 1"
  from h have sh: "swap_combos sh = [[0, 0, 0], [0, 0, 1]]"
    and f: "for_each (swap_combos sh) (fill_combo sh lookup nderivs) m1 = Inr m2" by auto
  have fr: "\<forall>k. k \<notin> (\<Union>combo\<in>set (swap_combos sh). slice_keys nderivs combo) \<longrightarrow> m2 k = m1 k"
    by (rule for_each_frame_only [OF f]) (rule fill_combo_frame)
  have "(a, b, c, i) \<notin> (\<Union>combo\<in>set (swap_combos sh). slice_keys nderivs combo)"
    using xs_xx_untouched [OF ab, of c i nderivs] unfolding sh by simp
  then show "m2 (a, b, c, i) = m1 (a, b, c, i)" by (rule fr [rule_format])
qed

theorem three_center_untouched_slices_witness:
  "\<exists>m. generate_deriv_index_map zero_Tensor 1 xs_xx = Inr m
     \<and> how_many_derivs 3 1 = Inr 9
     \<and> m (1, 0, 0, 3) = zero_Tensor [2, 2, 2, 9] (1, 0, 0, 3)
     \<and> m (0, 1, 1, 5) = 0
     \<and> \<not> bij_betw (\<lambda>i. m (1, 0, 1, i)) {0..<9} {0..<9}"
proof -
  have d: "(1 :: int) \<le> 1 \<and> (1 :: int) \<le> 8" by simp
  have h: "how_many_derivs 3 1 = Inr 9" using how_many_derivs_3 [of 1] by simp
  from three_center_untouched_slices [of zero_Tensor 1 undefined, THEN conjunct2, THEN conjunct1, rule_format, OF d]
  obtain m0 n where m0: "generate_deriv_index_map zero_Tensor 1 xs_xx = Inr m0"
    and n: "how_many_derivs 3 1 = Inr n"
    and b: "\<forall>a b c. a = 1 \<or> b = 1 \<longrightarrow> \<not> bij_betw (\<lambda>i. m0 (a, b, c, i)) {0..<n} {0..<n}"
    by (elim exE conjE)
  have n9: "n = 9" using n h by simp
  from three_center_untouched_slices [of zero_Tensor 1 m0, THEN conjunct1, rule_format, OF m0]
  obtain n' where n': "how_many_derivs 3 1 = Inr n'"
    and a: "\<forall>a b c i. a = 1 \<or> b = 1
               \<longrightarrow> m0 (a, b, c, i) = zero_Tensor [2, 2, 2, n'] (a, b, c, i)"
    by (elim exE conjE)
  have n'9: "n' = 9" using n' h by simp
  have 1: "m0 (1, 0, 0, 3) = zero_Tensor [2, 2, 2, 9] (1, 0, 0, 3)"
    using a [rule_format, of 1 0 0 3] by (simp add: n'9)
  have 2: "m0 (0, 1, 1, 5) = 0"
    using a [rule_format, of 0 1 1 5] by (simp add: zero_Tensor_def)
  have 3: "\<not> bij_betw (\<lambda>i. m0 (1, 0, 1, i)) {0..<9} {0..<9}"
    using b [rule_format, of 1 0 1] by (simp add: n9)
  show ?thesis
    by (intro exI [of _ m0] conjI) (fact m0 h 1 2 3)+
qed

section \<open>Looking a table up\<close>

lemma initialize_loop:
  assumes "\<forall>i\<in>set is. \<exists>t1 t2. generate_deriv_index_map new_Tensor (i + 1) xx_xx = Inr t1
             \<and> generate_deriv_index_map new_Tensor (i + 1) xs_xx = Inr t2"
  shows "for_each is
       (\<lambda>i c. case generate_deriv_index_map new_Tensor (i + 1) xx_xx of
                 Inl e \<Rightarrow> Inl e
               | Inr t1 \<Rightarrow>
                   (case generate_deriv_index_map new_Tensor (i + 1) xs_xx of
                      Inl e \<Rightarrow> Inl e
                    | Inr t2 \<Rightarrow>
                        Inr \<lparr>braket_xx_xx_maps = braket_xx_xx_maps c @ [t1],
                             braket_xs_xx_maps = braket_xs_xx_maps c @ [t2]\<rparr>))
       c0
     = Inr \<lparr>braket_xx_xx_maps = braket_xx_xx_maps c0
               @ map (\<lambda>i. projr (generate_deriv_index_map new_Tensor (i + 1) xx_xx)) is,
            braket_xs_xx_maps = braket_xs_xx_maps c0
               @ map (\<lambda>i. projr (generate_deriv_index_map new_Tensor (i + 1) xs_xx)) is\<rparr>"
  using assms
proof (induction "is" arbitrary: c0)
  case Nil
  show ?case by simp
next
  case (Cons i "is")
  from Cons.prems obtain t1 t2 where
    t: "generate_deriv_index_map new_Tensor (i + 1) xx_xx = Inr t1"
       "generate_deriv_index_map new_Tensor (i + 1) xs_xx = Inr t2"
    by auto
  have rest: "\<forall>i\<in>set is. \<exists>t1 t2. generate_deriv_index_map new_Tensor (i + 1) xx_xx = Inr t1
             \<and> generate_deriv_index_map new_Tensor (i + 1) xs_xx = Inr t2"
    using Cons.prems by simp
  show ?case by (simp add: t Cons.IH [OF rest])
qed

lemma generate_returns:
  assumes "braket = xx_xx \<or> braket = xs_xx" "1 \<le> d" "d \<le> 7"
  shows "\<exists>t. generate_deriv_index_map new_Tensor d braket = Inr t"
proof -
  have "d \<le> max_order braket" using assms(1,3) by auto
  from generate_supported [OF assms(1,2) this, of new_Tensor] show ?thesis by blast
qed

lemma initialize_eq:
  assumes "mx \<le> 7"
  shows "initialize new_Tensor mx empty_cache
     = Inr \<lparr>braket_xx_xx_maps =
               map (\<lambda>i. projr (generate_deriv_index_map new_Tensor (i + 1) xx_xx)) [0..mx - 1],
            braket_xs_xx_maps =
               map (\<lambda>i. projr (generate_deriv_index_map new_Tensor (i + 1) xs_xx)) [0..mx - 1]\<rparr>"
proof -
  have "\<forall>i\<in>set [0..mx - 1]. \<exists>t1 t2. generate_deriv_index_map new_Tensor (i + 1) xx_xx = Inr t1
             \<and> generate_deriv_index_map new_Tensor (i + 1) xs_xx = Inr t2"
  proof
    fix i assume "i \<in> set [0..mx - 1]"
    then have i: "1 \<le> i + 1" "i + 1 \<le> 7" using assms by simp_all
    from generate_returns [OF _ i, of xx_xx new_Tensor] generate_returns [OF _ i, of xs_xx new_Tensor]
    show "\<exists>t1 t2. generate_deriv_index_map new_Tensor (i + 1) xx_xx = Inr t1
             \<and> generate_deriv_index_map new_Tensor (i + 1) xs_xx = Inr t2" by auto
  qed
  from initialize_loop [OF this, of empty_cache] show ?thesis
    by (simp add: initialize_def empty_cache_def)
qed

lemma at_map_upto:
  "at (map f [0..mx - 1]) (d - 1) = (if 1 \<le> d \<and> d \<le> mx then Inr (f (d - 1)) else Inl OutOfBounds)"
proof (cases "1 \<le> d \<and> d \<le> mx")
  case True
  then have "[0..mx - 1] ! nat (d - 1) = 0 + int (nat (d - 1))" by (intro nth_upto) simp
  then show ?thesis using True by (simp add: at_def)
next
  case False
  then show ?thesis by (auto simp: at_def)
qed

text \<open>
  C5 (as amended): after \<^verbatim>\<open>initialize()\<close> with \<^verbatim>\<open>LIBINT2_MAX_DERIV_ORDER\<close> at most 7,
  \<^verbatim>\<open>instance(deriv_order, braket)\<close> fails by its assertion when the shape is not
  supported, whatever the order.  For a supported shape it returns the table built for
  that order and shape when \<open>1 \<le> deriv_order \<le> LIBINT2_MAX_DERIV_ORDER\<close>; when
  \<open>deriv_order\<close> is below 1 or above the maximum it indexes the vector outside its
  bounds, unchecked, and no assertion is evaluated.
\<close>

theorem instance_outcomes:
  assumes "LIBINT2_MAX_DERIV_ORDER \<le> 7"
  shows "instance_after_initialize new_Tensor LIBINT2_MAX_DERIV_ORDER deriv_order braket
      = (if braket = other_braket then Inl (AssertionFailed braket_supported)
         else if 1 \<le> deriv_order \<and> deriv_order \<le> LIBINT2_MAX_DERIV_ORDER
           then generate_deriv_index_map new_Tensor deriv_order braket
         else Inl OutOfBounds)
    \<and> (braket \<noteq> other_braket \<and> 1 \<le> deriv_order \<and> deriv_order \<le> LIBINT2_MAX_DERIV_ORDER
        \<longrightarrow> (\<exists>t. instance_after_initialize new_Tensor LIBINT2_MAX_DERIV_ORDER deriv_order braket
                  = Inr t))"
proof -
  let ?M = LIBINT2_MAX_DERIV_ORDER and ?d = deriv_order
  have ret: "\<exists>t. generate_deriv_index_map new_Tensor ?d b = Inr t"
    if "b = xx_xx \<or> b = xs_xx" "1 \<le> ?d \<and> ?d \<le> ?M" for b
    using that assms by (intro generate_returns) simp_all
  have pr: "Inr (projr (generate_deriv_index_map new_Tensor ?d b))
      = generate_deriv_index_map new_Tensor ?d b"
    if "b = xx_xx \<or> b = xs_xx" "1 \<le> ?d \<and> ?d \<le> ?M" for b
    using ret [OF that] by auto
  have 1: "instance_after_initialize new_Tensor ?M ?d braket
      = (if braket = other_braket then Inl (AssertionFailed braket_supported)
         else if 1 \<le> ?d \<and> ?d \<le> ?M then generate_deriv_index_map new_Tensor ?d braket
         else Inl OutOfBounds)"
  proof (cases braket)
    case xx_xx
    then show ?thesis using pr [of xx_xx]
      by (simp add: instance_after_initialize_def initialize_eq [OF assms] instance_of_def
          at_map_upto)
  next
    case xs_xx
    then show ?thesis using pr [of xs_xx]
      by (simp add: instance_after_initialize_def initialize_eq [OF assms] instance_of_def
          at_map_upto)
  next
    case other_braket
    then show ?thesis
      by (simp add: instance_after_initialize_def initialize_eq [OF assms] instance_of_def)
  qed
  have 2: "\<exists>t. instance_after_initialize new_Tensor ?M ?d braket = Inr t"
    if "braket \<noteq> other_braket \<and> 1 \<le> ?d \<and> ?d \<le> ?M"
  proof -
    have b: "braket = xx_xx \<or> braket = xs_xx" using that by (cases braket) simp_all
    from ret [OF b] that show ?thesis unfolding 1 by simp
  qed
  show ?thesis using 1 2 by blast
qed

theorem instance_outcomes_witness:
  "instance_after_initialize zero_Tensor 2 1 xs_xx = generate_deriv_index_map zero_Tensor 1 xs_xx
   \<and> (\<exists>t. instance_after_initialize zero_Tensor 2 1 xs_xx = Inr t)
   \<and> instance_after_initialize zero_Tensor 2 3 xx_xx = Inl OutOfBounds
   \<and> instance_after_initialize zero_Tensor 2 2 other_braket = Inl (AssertionFailed braket_supported)"
proof -
  have m: "(2 :: int) \<le> 7" by simp
  note t = instance_outcomes [OF m, of zero_Tensor]
  have 1: "instance_after_initialize zero_Tensor 2 1 xs_xx
      = generate_deriv_index_map zero_Tensor 1 xs_xx"
    using t [of 1 xs_xx, THEN conjunct1] by simp
  have 2: "\<exists>t. instance_after_initialize zero_Tensor 2 1 xs_xx = Inr t"
    using t [of 1 xs_xx, THEN conjunct2] by simp
  have 3: "instance_after_initialize zero_Tensor 2 3 xx_xx = Inl OutOfBounds"
    using t [of 3 xx_xx, THEN conjunct1] by simp
  have 4: "instance_after_initialize zero_Tensor 2 2 other_braket
      = Inl (AssertionFailed braket_supported)"
    using t [of 2 other_braket, THEN conjunct1] by simp
  show ?thesis using 1 2 3 4 by blast
qed

lemma initialize_1:
  "\<exists>t1 t2. initialize zero_Tensor 1 empty_cache
      = Inr \<lparr>braket_xx_xx_maps = [t1], braket_xs_xx_maps = [t2]\<rparr>"
  using initialize_eq [of 1 zero_Tensor] by simp

text \<open>
  C5 as stated fails: with \<^verbatim>\<open>LIBINT2_MAX_DERIV_ORDER = 1\<close>, the orders 0 and 2 of a supported
  shape index the one-element vector at \<open>-1\<close> and at \<open>1\<close>; the outcome is the unchecked
  access, not a failed assertion.
\<close>

theorem instance_unchecked_counterexample:
  "instance_after_initialize zero_Tensor 1 0 xx_xx = Inl OutOfBounds
   \<and> instance_after_initialize zero_Tensor 1 2 xs_xx = Inl OutOfBounds
   \<and> instance_after_initialize zero_Tensor 1 0 xx_xx \<noteq> Inl (AssertionFailed braket_supported)"
proof -
  from initialize_1 obtain t1 t2 where
    i: "initialize zero_Tensor 1 empty_cache
      = Inr \<lparr>braket_xx_xx_maps = [t1], braket_xs_xx_maps = [t2]\<rparr>" by blast
  have 1: "instance_after_initialize zero_Tensor 1 0 xx_xx = Inl OutOfBounds"
    by (simp add: instance_after_initialize_def i instance_of_def at_def)
  have 2: "instance_after_initialize zero_Tensor 1 2 xs_xx = Inl OutOfBounds"
    by (simp add: instance_after_initialize_def i instance_of_def at_def)
  show ?thesis unfolding 1 2 by simp
qed

section \<open>Recovering the flattened index\<close>








end
